theory Spec2Isabelle
  imports Complex_Main "HOL-Library.Sublist" "HOL-Library.Extended_Nat" "HOL-Library.Multiset"
begin

section \<open>Strings\<close>

text \<open>
  A JavaScript string is a sequence of code units. The model uses \<open>string\<close>, whose
  characters stand for the code units U+0000 to U+00FF; \<open>toLowerCase\<close> is the
  restriction of \<open>String.prototype.toLowerCase\<close> to that range (A-Z and the Latin-1
  capitals U+00C0 to U+00DE without the multiplication sign U+00D7 move up by 32).
\<close>

definition toLowerChar :: "char \<Rightarrow> char" where
  "toLowerChar c =
     (let k = (of_char c :: nat)
      in if (65 \<le> k \<and> k \<le> 90) \<or> (192 \<le> k \<and> k \<le> 222 \<and> k \<noteq> 215)
         then char_of (k + 32) else c)"

definition toLowerCase :: "string \<Rightarrow> string" where
  "toLowerCase s = map toLowerChar s"

text \<open>\<open>s[i]\<close> for a number \<open>i\<close>: \<open>undefined\<close> (here \<open>None\<close>) out of range.\<close>

definition charAt :: "string \<Rightarrow> int \<Rightarrow> char option" where
  "charAt s i = (if 0 \<le> i \<and> i < int (length s) then Some (s ! nat i) else None)"

definition startsWith :: "string \<Rightarrow> string \<Rightarrow> bool" where
  "startsWith h n = (take (length n) h = n)"

section \<open>utils/fuzzy.ts\<close>

definition isWordBoundary :: "string \<Rightarrow> int \<Rightarrow> bool" where
  "isWordBoundary s i =
     (if i = 0 then True
      else (case charAt s (i - 1) of
              None \<Rightarrow> False
            | Some prev \<Rightarrow> prev = CHR '' '' \<or> prev = CHR ''-'' \<or> prev = CHR ''_'' \<or> prev = CHR ''/''))"

text \<open>The local variables of \<open>fuzzyScore\<close> that the two loops update.\<close>

record fuzzy_vars =
  hIdx :: nat
  penalty :: int
  consecutive :: int
  firstMatchIndex :: int

text \<open>
  The inner \<open>while (hIdx < h.length)\<close> loop for needle index \<open>i\<close>; the Boolean is the
  flag \<open>found\<close> when the loop is left.
\<close>

function scan :: "string \<Rightarrow> string \<Rightarrow> nat \<Rightarrow> fuzzy_vars \<Rightarrow> bool \<times> fuzzy_vars" where
  "scan h n i v =
     (if hIdx v < length h then
        (if h ! hIdx v = n ! i then
           (let v1 = (if firstMatchIndex v = - 1 then v\<lparr>firstMatchIndex := int (hIdx v)\<rparr> else v);
                v2 = v1\<lparr>consecutive :=
                        (if 0 < i \<and> 0 < hIdx v \<and> h ! (hIdx v - 1) = n ! (i - 1)
                         then consecutive v + 1 else 1)\<rparr>;
                v3 = (if isWordBoundary h (int (hIdx v)) then v2\<lparr>penalty := penalty v - 1\<rparr> else v2)
            in (True, v3\<lparr>hIdx := hIdx v + 1\<rparr>))
         else scan h n i (v\<lparr>penalty := penalty v + 1, hIdx := hIdx v + 1\<rparr>))
      else (False, v))"
  by pat_completeness auto
termination
  by (relation "measure (\<lambda>(h, n, i, v). length h - hIdx v)") auto

text \<open>The outer \<open>for (let i = 0; i < n.length; i++)\<close> loop; \<open>None\<close> is \<open>return null\<close>.\<close>

function matchLoop :: "string \<Rightarrow> string \<Rightarrow> nat \<Rightarrow> fuzzy_vars \<Rightarrow> fuzzy_vars option" where
  "matchLoop h n i v =
     (if i < length n then
        (case scan h n i v of
           (True, v') \<Rightarrow> matchLoop h n (i + 1) v'
         | (False, v') \<Rightarrow> None)
      else Some v)"
  by pat_completeness auto
termination
  by (relation "measure (\<lambda>(h, n, i, v). length n - i)") auto

definition fuzzyScore :: "string \<Rightarrow> string \<Rightarrow> int option" where
  "fuzzyScore haystack needle =
     (if needle = [] then Some 0
      else
        (let h = toLowerCase haystack;
             n = toLowerCase needle
         in case matchLoop h n 0 \<lparr>hIdx = 0, penalty = 0, consecutive = 0, firstMatchIndex = - 1\<rparr> of
              None \<Rightarrow> None
            | Some v \<Rightarrow>
                (let prefixBonus = (if startsWith h n then - 5 else 0);
                     wordBonus = (if isWordBoundary h (firstMatchIndex v) then - 3 else 0);
                     consecutiveBonus = - consecutive v
                 in Some (max 0 (penalty v + prefixBonus + wordBonus + consecutiveBonus)))))"

declare scan.simps [simp del]
declare matchLoop.simps [simp del]

text \<open>
  The variables after each needle character has been matched, that is the states the
  outer loop of \<open>fuzzyScore\<close> passes through, and from them the haystack position at
  which each needle character was matched (\<open>hIdx\<close> has already stepped past it).
\<close>

function matchTrace :: "string \<Rightarrow> string \<Rightarrow> nat \<Rightarrow> fuzzy_vars \<Rightarrow> fuzzy_vars list" where
  "matchTrace h n i v =
     (if i < length n then
        (case scan h n i v of
           (True, v') \<Rightarrow> v' # matchTrace h n (i + 1) v'
         | (False, v') \<Rightarrow> [])
      else [])"
  by pat_completeness auto
termination
  by (relation "measure (\<lambda>(h, n, i, v). length n - i)") auto

declare matchTrace.simps [simp del]

definition posOf :: "fuzzy_vars list \<Rightarrow> nat list" where
  "posOf tr = map (\<lambda>u. hIdx u - 1) tr"

definition matchPositions :: "string \<Rightarrow> string \<Rightarrow> nat list" where
  "matchPositions h n =
     posOf (matchTrace h n 0 \<lparr>hIdx = 0, penalty = 0, consecutive = 0, firstMatchIndex = - 1\<rparr>)"

text \<open>The value of \<open>consecutive\<close> after each needle character has been matched.\<close>

definition runCounts :: "string \<Rightarrow> string \<Rightarrow> int list" where
  "runCounts h n =
     map consecutive
       (matchTrace h n 0 \<lparr>hIdx = 0, penalty = 0, consecutive = 0, firstMatchIndex = - 1\<rparr>)"

text \<open>
  An auxiliary for the proofs: the final value of \<open>consecutive\<close> as the loop computes it
  from the matched positions \<open>ps\<close> of the needle characters from index \<open>i\<close> on, starting
  from the count \<open>c\<close>.
\<close>

fun runAfter :: "string \<Rightarrow> string \<Rightarrow> int \<Rightarrow> nat \<Rightarrow> nat list \<Rightarrow> int" where
  "runAfter h n c i [] = c"
| "runAfter h n c i (p # ps) =
     runAfter h n (if 0 < i \<and> 0 < p \<and> h ! (p - 1) = n ! (i - 1) then c + 1 else 1) (i + 1) ps"

text \<open>
  The run counter in the words of the specification: a match extends the run only when
  it lies at the haystack position right after the previous match (\<open>prev\<close>), and restarts
  it at 1 otherwise.
\<close>

fun adjacentRunAfter :: "int \<Rightarrow> nat option \<Rightarrow> nat list \<Rightarrow> int" where
  "adjacentRunAfter c prev [] = c"
| "adjacentRunAfter c prev (p # ps) =
     adjacentRunAfter (if prev \<noteq> None \<and> p = the prev + 1 then c + 1 else 1) (Some p) ps"

text \<open>
  \<open>Array.prototype.slice(start, fin)\<close> for integral arguments: a negative argument
  counts from the end of the array, and both are clamped to the array.
\<close>

definition js_slice :: "'a list \<Rightarrow> int \<Rightarrow> int \<Rightarrow> 'a list" where
  "js_slice xs start fin =
     (let len = int (length xs);
          k = (if start < 0 then max (len + start) 0 else min start len);
          e = (if fin < 0 then max (len + fin) 0 else min fin len)
      in take (nat (e - k)) (drop (nat k) xs))"

record 'a FuzzyCandidate =
  item :: 'a
  score :: int

text \<open>
  \<open>fuzzyFilter\<close>, together with the texts that its loop hands to \<open>fuzzyScore\<close>, in call
  order (one call for every element of \<open>items\<close>). \<open>Array.prototype.sort\<close> is a stable
  sort, as \<open>sort_key\<close> is; \<open>limit\<close> is \<open>None\<close> when the argument is not a number.
\<close>

definition fuzzyFilter_traced ::
  "'a list \<Rightarrow> ('a \<Rightarrow> string) \<Rightarrow> string \<Rightarrow> int option \<Rightarrow> 'a FuzzyCandidate list \<times> string list" where
  "fuzzyFilter_traced items getText query limit =
     (let results = List.map_filter
                      (\<lambda>it. case fuzzyScore (getText it) query of
                              None \<Rightarrow> None
                            | Some s \<Rightarrow> Some \<lparr>item = it, score = s\<rparr>) items;
          sorted_results = sort_key score results
      in ((case limit of Some k \<Rightarrow> js_slice sorted_results 0 k | None \<Rightarrow> sorted_results),
          map getText items))"

definition fuzzyFilter ::
  "'a list \<Rightarrow> ('a \<Rightarrow> string) \<Rightarrow> string \<Rightarrow> int option \<Rightarrow> 'a FuzzyCandidate list" where
  "fuzzyFilter items getText query limit = fst (fuzzyFilter_traced items getText query limit)"

section \<open>utils/ordering.ts\<close>

record Item =
  item_id :: string
  label :: string
  group :: "string option"

text \<open>
  The map \<open>selectedOrder\<close> built by \<open>selectedIds.forEach((id, i) => selectedOrder.set(id, i))\<close>:
  a later occurrence of an id overwrites the index of an earlier one.
\<close>

definition selectedOrder :: "string list \<Rightarrow> (string \<rightharpoonup> nat)" where
  "selectedOrder selectedIds =
     fold (\<lambda>(i, x) m. m(x \<mapsto> i)) (List.enumerate 0 selectedIds) Map.empty"

text \<open>\<open>selectedOrder.get(a.id) ?? Infinity\<close>.\<close>

definition orderOf :: "(string \<rightharpoonup> nat) \<Rightarrow> Item \<Rightarrow> enat" where
  "orderOf m a = (case m (item_id a) of Some k \<Rightarrow> enat k | None \<Rightarrow> \<infinity>)"

text \<open>
  The comparator \<open>orderA - orderB\<close> orders by \<open>orderOf\<close> (the difference of two
  infinities is NaN, which \<open>sort\<close> reads as equal), and the sort is stable.
\<close>

definition separateItems :: "Item list \<Rightarrow> string list \<Rightarrow> Item list \<times> Item list" where
  "separateItems items selectedIds =
     (let selectedSet = set selectedIds;
          m = selectedOrder selectedIds;
          (selected, unselected) = partition (\<lambda>it. item_id it \<in> selectedSet) items
      in (sort_key (orderOf m) selected, unselected))"

text \<open>
  \<open>orderItemsSync\<close>, together with the labels handed to \<open>fuzzyScore\<close> during the call.
  The parameter \<open>query\<close> is declared \<open>string\<close>; \<open>None\<close> stands for an absent
  (\<open>undefined\<close>) argument, which \<open>!query\<close> treats like the empty string.
\<close>

definition orderItemsSync_traced ::
  "Item list \<Rightarrow> string list \<Rightarrow> string option \<Rightarrow> Item list \<times> string list" where
  "orderItemsSync_traced items selectedIds query =
     (let (selected, unselected) = separateItems items selectedIds
      in case query of
           None \<Rightarrow> (selected @ unselected, [])
         | Some q \<Rightarrow>
             if q = [] then (selected @ unselected, [])
             else (let (scored, calls) = fuzzyFilter_traced unselected label q None
                   in (selected @ map item scored, calls)))"

definition orderItemsSync :: "Item list \<Rightarrow> string list \<Rightarrow> string option \<Rightarrow> Item list" where
  "orderItemsSync items selectedIds query = fst (orderItemsSync_traced items selectedIds query)"

definition orderItemsAsync :: "Item list \<Rightarrow> string list \<Rightarrow> Item list" where
  "orderItemsAsync items selectedIds =
     (let (selected, unselected) = separateItems items selectedIds
      in selected @ unselected)"

text \<open>
  Two auxiliary views of \<open>selectedOrder\<close> for the proofs: the map after the indices
  from \<open>n\<close> on have been stored over \<open>m0\<close>, and the sort key as a function of the id.
\<close>

definition orderFrom :: "nat \<Rightarrow> string list \<Rightarrow> (string \<rightharpoonup> nat) \<Rightarrow> (string \<rightharpoonup> nat)" where
  "orderFrom n xs m0 = fold (\<lambda>(i, x) m. m(x \<mapsto> i)) (List.enumerate n xs) m0"

definition idOrder :: "(string \<rightharpoonup> nat) \<Rightarrow> string \<Rightarrow> enat" where
  "idOrder m x = (case m x of Some k \<Rightarrow> enat k | None \<Rightarrow> \<infinity>)"

text \<open>The four items of the repository's tests.\<close>

definition mockItems :: "Item list" where
  "mockItems =
     [\<lparr>item_id = ''1'', label = ''Alpha'', group = Some ''A''\<rparr>,
      \<lparr>item_id = ''2'', label = ''Beta'', group = Some ''B''\<rparr>,
      \<lparr>item_id = ''3'', label = ''Gamma'', group = Some ''A''\<rparr>,
      \<lparr>item_id = ''4'', label = ''Delta'', group = Some ''B''\<rparr>]"

section \<open>VirtualList\<close>

text \<open>
  The window of \<open>VirtualList\<close>. Scroll offset and heights are numbers of pixels, modelled
  as reals; \<open>overscan\<close> is a number of rows and \<open>totalCount\<close> is \<open>items.length\<close>.
\<close>

definition startIndex :: "real \<Rightarrow> real \<Rightarrow> int \<Rightarrow> int" where
  "startIndex scrollTop rowHeight overscan = max 0 (\<lfloor>scrollTop / rowHeight\<rfloor> - overscan)"

definition endIndex :: "nat \<Rightarrow> real \<Rightarrow> real \<Rightarrow> real \<Rightarrow> int \<Rightarrow> int" where
  "endIndex totalCount scrollTop height rowHeight overscan =
     min (int totalCount - 1) (\<lceil>(scrollTop + height) / rowHeight\<rceil> + overscan)"

definition visibleItems :: "'a list \<Rightarrow> real \<Rightarrow> real \<Rightarrow> real \<Rightarrow> int \<Rightarrow> 'a list" where
  "visibleItems items scrollTop height rowHeight overscan =
     js_slice items (startIndex scrollTop rowHeight overscan)
       (endIndex (length items) scrollTop height rowHeight overscan + 1)"

text \<open>The pairs \<open>(index, item)\<close> that \<open>visibleItems.map\<close> hands to \<open>renderRow\<close>.\<close>

definition renderedRows :: "'a list \<Rightarrow> real \<Rightarrow> real \<Rightarrow> real \<Rightarrow> int \<Rightarrow> (int \<times> 'a) list" where
  "renderedRows items scrollTop height rowHeight overscan =
     map (\<lambda>(i, x). (startIndex scrollTop rowHeight overscan + int i, x))
       (List.enumerate 0 (visibleItems items scrollTop height rowHeight overscan))"

definition contentHeight :: "nat \<Rightarrow> real \<Rightarrow> real" where
  "contentHeight totalCount rowHeight = real totalCount * rowHeight"

section \<open>MultiSelect: selection and keyboard\<close>

text \<open>
  What \<open>MultiSelect\<close> and its hooks hold or receive between two events. \<open>selectedIds\<close>
  is a controlled prop: the parent stores the list that \<open>onChange\<close> reports and passes
  it back. \<open>w_items\<close> is the prop \<open>items\<close> (\<open>isSync = !!items\<close>) and \<open>w_isAsync\<close> is
  \<open>!!fetchItems\<close>.
\<close>

record widget =
  w_items :: "Item list option"
  w_isAsync :: bool
  w_selectedIds :: "string list"
  w_query :: string
  w_open :: bool
  w_activeIndex :: int
  w_mruOrder :: "string list"
  w_asyncItems :: "Item list"
  w_selectedItemsCache :: "string \<rightharpoonup> Item"

text \<open>\<open>useSelection\<close>: \<open>commitSelection(id)\<close>.\<close>

definition commitSelection :: "string \<Rightarrow> widget \<Rightarrow> widget" where
  "commitSelection ident w =
     (let isRemoving = (ident \<in> set (w_selectedIds w));
          next_ids = (if isRemoving then filter (\<lambda>x. x \<noteq> ident) (w_selectedIds w)
                      else ident # filter (\<lambda>x. x \<noteq> ident) (w_selectedIds w));
          w1 = w\<lparr>w_selectedIds := next_ids\<rparr>;
          w2 = (if w_isAsync w then
                  w1\<lparr>w_selectedItemsCache :=
                        (if isRemoving then (w_selectedItemsCache w)(ident := None)
                         else (case find (\<lambda>i. item_id i = ident) (w_asyncItems w) of
                                 Some it \<Rightarrow> (w_selectedItemsCache w)(ident \<mapsto> it)
                               | None \<Rightarrow> w_selectedItemsCache w))\<rparr>
                else w1)
      in w2\<lparr>w_query := []\<rparr>)"

text \<open>\<open>helpers.ts\<close>: \<open>getSelectedItem\<close>; \<open>None\<close> is \<open>undefined\<close>.\<close>

definition getSelectedItem ::
  "string \<Rightarrow> bool \<Rightarrow> Item list option \<Rightarrow> (string \<rightharpoonup> Item) \<Rightarrow> Item list \<Rightarrow> Item option" where
  "getSelectedItem ident isSync its selectedItems asyncItems =
     (case (isSync, its) of
        (True, Some xs) \<Rightarrow> find (\<lambda>i. item_id i = ident) xs
      | _ \<Rightarrow> (case selectedItems ident of
                Some it \<Rightarrow> Some it
              | None \<Rightarrow> find (\<lambda>i. item_id i = ident) asyncItems))"

text \<open>The memoised \<open>orderedItems\<close> of \<open>MultiSelect\<close>.\<close>

definition orderedItems :: "widget \<Rightarrow> Item list" where
  "orderedItems w =
     (case w_items w of
        Some xs \<Rightarrow> orderItemsSync xs (w_selectedIds w) (Some (w_query w))
      | None \<Rightarrow> orderItemsAsync (w_asyncItems w) (w_selectedIds w))"

text \<open>\<open>xs[i]\<close> for an integral \<open>i\<close>: \<open>undefined\<close> (here \<open>None\<close>) out of range.\<close>

definition itemAt :: "'a list \<Rightarrow> int \<Rightarrow> 'a option" where
  "itemAt xs i = (if 0 \<le> i \<and> i < int (length xs) then Some (xs ! nat i) else None)"

text \<open>
  \<open>String.prototype.trim\<close> on the code units below U+0100: it strips tab, line feed,
  vertical tab, form feed, carriage return, space and no-break space.
\<close>

definition isWhiteSpace :: "char \<Rightarrow> bool" where
  "isWhiteSpace c = (let k = (of_char c :: nat) in (9 \<le> k \<and> k \<le> 13) \<or> k = 32 \<or> k = 160)"

definition trim :: "string \<Rightarrow> string" where
  "trim s = rev (dropWhile isWhiteSpace (rev (dropWhile isWhiteSpace s)))"

text \<open>
  \<open>useKeyboardNavigation\<close>: \<open>onKeyDown(e)\<close> for \<open>e.key = key\<close>. The Boolean tells whether
  the handler called \<open>e.preventDefault()\<close>; when it did not, the browser goes on to treat
  the key as input to the text field.
\<close>

definition onKeyDown :: "string \<Rightarrow> widget \<Rightarrow> widget \<times> bool" where
  "onKeyDown key w =
     (if \<not> w_open w \<and> (key = ''ArrowDown'' \<or> key = ''Enter'') then (w\<lparr>w_open := True\<rparr>, True)
      else if \<not> w_open w then (w, False)
      else if key = ''ArrowDown'' then
        (w\<lparr>w_activeIndex := min (w_activeIndex w + 1) (int (length (orderedItems w)) - 1)\<rparr>, True)
      else if key = ''ArrowUp'' then
        (w\<lparr>w_activeIndex := max (w_activeIndex w - 1) 0\<rparr>, True)
      else if key = ''Home'' then (w\<lparr>w_activeIndex := 0\<rparr>, True)
      else if key = ''End'' then
        (w\<lparr>w_activeIndex := max 0 (int (length (orderedItems w)) - 1)\<rparr>, True)
      else if key = ''Enter'' then
        ((case itemAt (orderedItems w) (w_activeIndex w) of
            Some active \<Rightarrow> commitSelection (item_id active) w
          | None \<Rightarrow> w), True)
      else if key = '' '' then
        (if trim (w_query w) = [] then
           ((case itemAt (orderedItems w) (w_activeIndex w) of
               Some active \<Rightarrow> commitSelection (item_id active) w
             | None \<Rightarrow> w), True)
         else (w, False))
      else if key = ''Escape'' then (w\<lparr>w_open := False\<rparr>, True)
      else if key = ''Backspace'' then
        (if w_query w = [] \<and> w_selectedIds w \<noteq> [] then
           (let l = last (w_selectedIds w)
            in if l \<noteq> [] then
                 w\<lparr>w_selectedIds := js_slice (w_selectedIds w) 0 (- 1),
                   w_mruOrder := l # filter (\<lambda>x. x \<noteq> l) (w_mruOrder w)\<rparr>
               else w, True)
         else (w, False))
      else (w, False))"

text \<open>A closed widget over the first two items of \<open>generateDataset\<close>, nothing selected.\<close>

definition demoWidget :: widget where
  "demoWidget =
     \<lparr>w_items = Some [\<lparr>item_id = ''1'', label = ''Alpha Alpha #1'', group = Some ''Provider''\<rparr>,
                      \<lparr>item_id = ''2'', label = ''Beta Edge #2'', group = Some ''Account''\<rparr>],
      w_isAsync = False, w_selectedIds = [], w_query = [], w_open = False, w_activeIndex = 0,
      w_mruOrder = [], w_asyncItems = [], w_selectedItemsCache = Map.empty\<rparr>"

text \<open>A widget in server mode whose first page holds the four test items.\<close>

definition serverWidget :: widget where
  "serverWidget =
     \<lparr>w_items = None, w_isAsync = True, w_selectedIds = [], w_query = [], w_open = True,
      w_activeIndex = 0, w_mruOrder = [], w_asyncItems = mockItems,
      w_selectedItemsCache = Map.empty\<rparr>"

text \<open>
  The open widget after \<open>1\<close> and then \<open>2\<close> have been selected, and the open widget with
  a single space typed into the search field.
\<close>

definition twoSelected :: widget where
  "twoSelected = commitSelection ''2'' (commitSelection ''1'' (demoWidget\<lparr>w_open := True\<rparr>))"

definition blankQuery :: widget where
  "blankQuery = demoWidget\<lparr>w_open := True, w_query := '' ''\<rparr>"

section \<open>useAsyncItems\<close>

text \<open>
  The hook between two events: its props, its React state, its refs, and what the
  environment holds for it: the abort controllers whose signal is aborted, the calls of
  \<open>fetchItems\<close> that have not settled yet (each with the controller and the \<open>reset\<close> flag
  its continuation has captured), and the timers that are set. Controllers and timers
  are named by numbers taken from \<open>l_fresh\<close>; a timer id is never 0.
\<close>

record request =
  rq_controller :: nat
  rq_reset :: bool
  rq_query :: string
  rq_page :: nat

record loader =
  l_hasFetch :: bool
  l_query :: string
  l_pageSize :: nat
  l_selectedIds :: "string list"
  l_asyncItems :: "Item list"
  l_loading :: bool
  l_hasMore :: bool
  l_error :: "string option"
  l_selectedItemsCache :: "string \<rightharpoonup> Item"
  l_pageRef :: nat
  l_queryRef :: string
  l_loadingRef :: bool
  l_initialLoadDoneRef :: bool
  l_abortControllerRef :: "nat option"
  l_lastQueryRef :: string
  l_selectedSet :: "string set"
  l_debounceTimerRef :: "nat option"
  l_aborted :: "nat set"
  l_pending :: "request list"
  l_timers :: "nat set"
  l_fresh :: nat

text \<open>The value a rejected promise carries: an \<open>Error\<close> with its message, or anything else.\<close>

datatype rejection = ErrorObject string | OtherReason

datatype outcome = Resolved "Item list" | Rejected rejection

text \<open>\<open>controller.abort()\<close> on the controller in \<open>abortControllerRef\<close>, if there is one.\<close>

definition abortCurrent :: "loader \<Rightarrow> loader" where
  "abortCurrent s =
     (case l_abortControllerRef s of
        Some c \<Rightarrow> s\<lparr>l_aborted := insert c (l_aborted s)\<rparr>
      | None \<Rightarrow> s)"

text \<open>\<open>loadMore(reset)\<close> up to its \<open>await\<close>.\<close>

definition loadMore :: "bool \<Rightarrow> loader \<Rightarrow> loader" where
  "loadMore reset s =
     (if \<not> l_hasFetch s \<or> l_loadingRef s then s
      else
        (let s1 = abortCurrent s;
             c = l_fresh s1;
             s2 = s1\<lparr>l_abortControllerRef := Some c, l_fresh := c + 1\<rparr>;
             s3 = (if reset
                   then s2\<lparr>l_pageRef := 0, l_asyncItems := [], l_hasMore := True, l_error := None\<rparr>
                   else s2);
             s4 = s3\<lparr>l_loading := True, l_error := None\<rparr>
         in s4\<lparr>l_pending := l_pending s4
                  @ [\<lparr>rq_controller = c, rq_reset = reset,
                      rq_query = l_queryRef s4, rq_page = l_pageRef s4\<rparr>]\<rparr>))"

text \<open>
  \<open>loadMore\<close> from its \<open>await\<close> on, for the call that created controller \<open>c\<close>: the
  \<open>try\<close> block after a fulfilled promise or the \<open>catch\<close> block after a rejected one, then
  the \<open>finally\<close> block.
\<close>

definition settle :: "nat \<Rightarrow> outcome \<Rightarrow> loader \<Rightarrow> loader" where
  "settle c out s =
     (case find (\<lambda>r. rq_controller r = c) (l_pending s) of
        None \<Rightarrow> s
      | Some r \<Rightarrow>
          (let s0 = s\<lparr>l_pending := filter (\<lambda>r. rq_controller r \<noteq> c) (l_pending s)\<rparr>
           in if c \<in> l_aborted s0 then s0
              else
                (let s1 =
                   (case out of
                      Resolved fetched \<Rightarrow>
                        s0\<lparr>l_asyncItems := (if rq_reset r then fetched
                                             else l_asyncItems s0 @ fetched),
                           l_hasMore := (l_pageSize s0 \<le> length fetched),
                           l_selectedItemsCache :=
                             fold (\<lambda>it m. if item_id it \<in> l_selectedSet s0
                                           then m(item_id it \<mapsto> it) else m)
                               fetched (l_selectedItemsCache s0),
                           l_pageRef := l_pageRef s0 + 1\<rparr>
                    | Rejected reason \<Rightarrow>
                        s0\<lparr>l_error :=
                             Some (case reason of
                                     ErrorObject msg \<Rightarrow> msg
                                   | OtherReason \<Rightarrow> ''Failed to fetch items'')\<rparr>)
                 in s1\<lparr>l_loading := False, l_abortControllerRef := None\<rparr>)))"

text \<open>The three effects that keep the refs updated; they run when a render is committed.\<close>

definition keepRefsUpdated :: "loader \<Rightarrow> loader" where
  "keepRefsUpdated s =
     s\<lparr>l_loadingRef := l_loading s,
       l_selectedSet := set (l_selectedIds s),
       l_queryRef := l_query s\<rparr>"

definition clearDebounceTimer :: "loader \<Rightarrow> loader" where
  "clearDebounceTimer s =
     (case l_debounceTimerRef s of
        Some t \<Rightarrow> s\<lparr>l_timers := l_timers s - {t}\<rparr>
      | None \<Rightarrow> s)"

text \<open>
  The effect \<open>Debounced search\<close>, after the cleanup of its previous run. The delay is not
  modelled: the timer it sets fires at some later event.
\<close>

definition debouncedSearch :: "loader \<Rightarrow> loader" where
  "debouncedSearch s =
     (if \<not> l_hasFetch s then s
      else
        (let s1 = clearDebounceTimer s;
             s2 = (if l_query s1 \<noteq> l_lastQueryRef s1 \<and> l_abortControllerRef s1 \<noteq> None
                   then (abortCurrent s1)\<lparr>l_abortControllerRef := None\<rparr>
                   else s1);
             s3 = s2\<lparr>l_lastQueryRef := l_query s2\<rparr>;
             t = l_fresh s3
         in s3\<lparr>l_debounceTimerRef := Some t, l_timers := insert t (l_timers s3),
               l_fresh := t + 1\<rparr>))"

text \<open>The callback of the debounce timer \<open>t\<close>.\<close>

definition timerFired :: "nat \<Rightarrow> loader \<Rightarrow> loader" where
  "timerFired t s =
     (if t \<in> l_timers s
      then loadMore True (s\<lparr>l_timers := l_timers s - {t}, l_initialLoadDoneRef := True\<rparr>)
      else s)"

text \<open>The effect \<open>Initial load\<close>.\<close>

definition initialLoad :: "loader \<Rightarrow> loader" where
  "initialLoad s = (if l_hasFetch s \<and> \<not> l_initialLoadDoneRef s then loadMore True s else s)"

text \<open>
  \<open>handleScroll\<close> for a target with the given \<open>scrollHeight\<close>, \<open>scrollTop\<close> and
  \<open>clientHeight\<close>. The callback reads \<open>hasMore\<close> and \<open>error\<close> as of the last render; the
  model reads the state itself.
\<close>

definition handleScroll :: "int \<Rightarrow> int \<Rightarrow> int \<Rightarrow> loader \<Rightarrow> loader" where
  "handleScroll scrollHeight scrollTop clientHeight s =
     (if \<not> l_hasFetch s then s
      else
        (let threshold = 100;
             nearBottom = (scrollHeight - scrollTop - clientHeight < threshold)
         in if nearBottom \<and> l_hasMore s \<and> \<not> l_loadingRef s \<and> l_error s = None
            then loadMore False s else s))"

definition retry :: "loader \<Rightarrow> loader" where
  "retry s = loadMore True (s\<lparr>l_error := None\<rparr>)"

text \<open>The cleanup on unmount.\<close>

definition unmount :: "loader \<Rightarrow> loader" where
  "unmount s = clearDebounceTimer (abortCurrent s)"

text \<open>
  The events of the hook. Handlers run one at a time; between an update of the state and
  the next committed render the refs still hold the old values, so \<open>Render\<close> is an event
  of its own, and any order of events is an interleaving. A change of the props \<open>query\<close>
  or \<open>selectedIds\<close> comes with the render that delivers it; setting the query to the
  value it has causes no render.
\<close>

datatype event =
    Mount
  | Render
  | QueryChanged string
  | SelectedIdsChanged "string list"
  | TimerFired nat
  | Settled nat outcome
  | Scroll int int int
  | Retry
  | Unmount

fun step :: "event \<Rightarrow> loader \<Rightarrow> loader" where
  "step Mount s = initialLoad (debouncedSearch (keepRefsUpdated s))"
| "step Render s = keepRefsUpdated s"
| "step (QueryChanged q) s =
     (if q = l_query s then s
      else debouncedSearch (keepRefsUpdated (s\<lparr>l_query := q\<rparr>)))"
| "step (SelectedIdsChanged ids) s = keepRefsUpdated (s\<lparr>l_selectedIds := ids\<rparr>)"
| "step (TimerFired t) s = timerFired t s"
| "step (Settled c out) s = settle c out s"
| "step (Scroll scrollHeight scrollTop clientHeight) s =
     handleScroll scrollHeight scrollTop clientHeight s"
| "step Retry s = retry s"
| "step Unmount s = unmount s"

fun run :: "event list \<Rightarrow> loader \<Rightarrow> loader" where
  "run [] s = s"
| "run (e # es) s = run es (step e s)"

text \<open>The hook before it is mounted, in server mode with page size 2 and an empty query.\<close>

definition initialLoader :: loader where
  "initialLoader =
     \<lparr>l_hasFetch = True, l_query = [], l_pageSize = 2, l_selectedIds = [],
      l_asyncItems = [], l_loading = False, l_hasMore = True, l_error = None,
      l_selectedItemsCache = Map.empty, l_pageRef = 0, l_queryRef = [], l_loadingRef = False,
      l_initialLoadDoneRef = False, l_abortControllerRef = None, l_lastQueryRef = [],
      l_selectedSet = {}, l_debounceTimerRef = None, l_aborted = {}, l_pending = [],
      l_timers = {}, l_fresh = 1\<rparr>"

text \<open>The hook after it has been mounted and the first render has been committed.\<close>

definition mountedLoader :: loader where
  "mountedLoader = run [Mount, Render] initialLoader"

text \<open>The hook right after its mount effects, before the next render is committed.\<close>

definition justMounted :: loader where
  "justMounted = step Mount initialLoader"

text \<open>
  The invariant behind the cancellation policy: every call of \<open>fetchItems\<close> that has
  not settled, other than the one whose controller is in \<open>abortControllerRef\<close>, has been
  aborted (and no pending controller has a number that is still to be handed out).
\<close>

definition supersededCancelled :: "loader \<Rightarrow> bool" where
  "supersededCancelled s =
     (\<forall>r \<in> set (l_pending s).
        rq_controller r < l_fresh s
        \<and> (l_abortControllerRef s \<noteq> Some (rq_controller r) \<longrightarrow> rq_controller r \<in> l_aborted s))"

section \<open>Matching is the subsequence test\<close>





section \<open>The score and its run counter\<close>

lemma scan_step:
  "scan h n i v = (True, v') \<Longrightarrow>
     hIdx v < hIdx v' \<and> hIdx v' \<le> length h \<and> h ! (hIdx v' - 1) = n ! i
     \<and> (\<forall>j. hIdx v \<le> j \<and> j < hIdx v' - 1 \<longrightarrow> h ! j \<noteq> n ! i)
     \<and> penalty v' = penalty v + int (hIdx v' - 1 - hIdx v)
                     - (if isWordBoundary h (int (hIdx v' - 1)) then 1 else 0)
     \<and> consecutive v' = (if 0 < i \<and> 0 < hIdx v' - 1 \<and> h ! (hIdx v' - 1 - 1) = n ! (i - 1)
                         then consecutive v + 1 else 1)
     \<and> firstMatchIndex v' = (if firstMatchIndex v = - 1 then int (hIdx v' - 1)
                             else firstMatchIndex v)"
proof (induction h n i v rule: scan.induct)
  case (1 h n i v)
  from "1.prems" have inb: "hIdx v < length h"
    by (simp add: scan.simps [of h n i v] split: if_splits)
  show ?case
  proof (cases "h ! hIdx v = n ! i")
    case True
    with inb "1.prems" show ?thesis
      by (auto simp: scan.simps [of h n i v] Let_def Suc_le_eq)
  next
    case False
    let ?w = "v\<lparr>penalty := penalty v + 1, hIdx := hIdx v + 1\<rparr>"
    from False inb "1.prems" have sc: "scan h n i ?w = (True, v')"
      by (simp add: scan.simps [of h n i v])
    note IH = "1.IH" [OF inb False sc]
    from IH have lt: "hIdx v + 1 < hIdx v'" by simp
    have "\<forall>j. hIdx v \<le> j \<and> j < hIdx v' - 1 \<longrightarrow> h ! j \<noteq> n ! i"
    proof (intro allI impI)
      fix j assume j: "hIdx v \<le> j \<and> j < hIdx v' - 1"
      show "h ! j \<noteq> n ! i"
      proof (cases "j = hIdx v")
        case True with False show ?thesis by simp
      next
        case False
        with j have "hIdx ?w \<le> j \<and> j < hIdx v' - 1" by simp
        with IH show ?thesis by blast
      qed
    qed
    moreover from IH lt have "penalty v' = penalty v + int (hIdx v' - 1 - hIdx v)
                     - (if isWordBoundary h (int (hIdx v' - 1)) then 1 else 0)"
      by (simp add: of_nat_diff)
    moreover from IH lt have "hIdx v < hIdx v'" by simp
    moreover from IH have "firstMatchIndex v' = (if firstMatchIndex v = - 1 then int (hIdx v' - 1)
                             else firstMatchIndex v)" by simp
    moreover from IH have "consecutive v' = (if 0 < i \<and> 0 < hIdx v' - 1 \<and> h ! (hIdx v' - 1 - 1) = n ! (i - 1)
                         then consecutive v + 1 else 1)" by simp
    ultimately show ?thesis using IH by blast
  qed
qed


lemma loop_unfold:
  assumes "i < length n" and "matchLoop h n i v = Some w"
  shows "\<exists>v'. scan h n i v = (True, v') \<and> matchLoop h n (i + 1) v' = Some w
              \<and> matchTrace h n i v = v' # matchTrace h n (i + 1) v'"
proof -
  obtain b v' where sc: "scan h n i v = (b, v')" by (cases "scan h n i v")
  with assms have b by (cases b) (simp_all add: matchLoop.simps [of h n i v])
  with sc assms show ?thesis
    by (simp add: matchLoop.simps [of h n i v] matchTrace.simps [of h n i v])
qed

lemma loop_done:
  assumes "\<not> i < length n"
  shows "matchLoop h n i v = Some v \<and> matchTrace h n i v = []"
  using assms by (simp add: matchLoop.simps [of h n i v] matchTrace.simps [of h n i v])

lemma loop_positions:
  "matchLoop h n i v = Some w \<Longrightarrow> i \<le> length n \<Longrightarrow>
     length (posOf (matchTrace h n i v)) = length n - i
     \<and> sorted_wrt (<) (posOf (matchTrace h n i v))
     \<and> (\<forall>p \<in> set (posOf (matchTrace h n i v)). hIdx v \<le> p \<and> p < hIdx w)
     \<and> hIdx v \<le> hIdx w \<and> hIdx w \<le> max (hIdx v) (length h)
     \<and> (i < length n \<longrightarrow> hIdx w = last (posOf (matchTrace h n i v)) + 1)"
proof (induction h n i v rule: matchLoop.induct)
  case (1 h n i v)
  show ?case
  proof (cases "i < length n")
    case False
    with "1.prems" loop_done [OF False, of h v] show ?thesis by (simp add: posOf_def)
  next
    case True
    from loop_unfold [OF True "1.prems"(1)] obtain v'
      where sc: "scan h n i v = (True, v')" and ml: "matchLoop h n (i + 1) v' = Some w"
        and tr: "matchTrace h n i v = v' # matchTrace h n (i + 1) v'" by blast
    from True have le: "i + 1 \<le> length n" by simp
    note IH = "1.IH" [OF True sc [symmetric] refl ml le]
    note st = scan_step [OF sc]
    let ?ps = "posOf (matchTrace h n (i + 1) v')"
    have ps: "posOf (matchTrace h n i v) = (hIdx v' - 1) # ?ps"
      by (simp add: tr posOf_def)
    have a: "length (posOf (matchTrace h n i v)) = length n - i"
      using IH True by (simp add: ps)
    have b: "sorted_wrt (<) (posOf (matchTrace h n i v))"
      using IH st by (auto simp: ps)
    have c: "\<forall>p \<in> set (posOf (matchTrace h n i v)). hIdx v \<le> p \<and> p < hIdx w"
      using IH st by (auto simp: ps)
    have d: "hIdx v \<le> hIdx w \<and> hIdx w \<le> max (hIdx v) (length h)"
      using IH st by auto
    have e: "hIdx w = last (posOf (matchTrace h n i v)) + 1"
    proof (cases "i + 1 < length n")
      case True
      with IH have "?ps \<noteq> []" by auto
      with IH True show ?thesis by (simp add: ps)
    next
      case False
      with loop_done [OF False, of h v'] ml have "w = v'" and "?ps = []"
        by (simp_all add: posOf_def)
      with st show ?thesis by (simp add: ps)
    qed
    from a b c d e show ?thesis by blast
  qed
qed

lemma loop_matches:
  "matchLoop h n i v = Some w \<Longrightarrow> i \<le> length n \<Longrightarrow> k < length n - i \<Longrightarrow>
     posOf (matchTrace h n i v) ! k < length h
     \<and> h ! (posOf (matchTrace h n i v) ! k) = n ! (i + k)
     \<and> (\<forall>j. (if k = 0 then hIdx v else posOf (matchTrace h n i v) ! (k - 1) + 1) \<le> j
              \<and> j < posOf (matchTrace h n i v) ! k \<longrightarrow> h ! j \<noteq> n ! (i + k))"
proof (induction h n i v arbitrary: k rule: matchLoop.induct)
  case (1 h n i v)
  from "1.prems" have True: "i < length n" by simp
  from loop_unfold [OF True "1.prems"(1)] obtain v'
    where sc: "scan h n i v = (True, v')" and ml: "matchLoop h n (i + 1) v' = Some w"
      and tr: "matchTrace h n i v = v' # matchTrace h n (i + 1) v'" by blast
  from True have le: "i + 1 \<le> length n" by simp
  note st = scan_step [OF sc]
  let ?ps = "posOf (matchTrace h n (i + 1) v')"
  have ps: "posOf (matchTrace h n i v) = (hIdx v' - 1) # ?ps"
    by (simp add: tr posOf_def)
  show ?case
  proof (cases k)
    case 0
    with st show ?thesis by (auto simp: ps)
  next
    case (Suc k')
    with "1.prems" have k': "k' < length n - (i + 1)" by simp
    note IH = "1.IH" [OF True sc [symmetric] refl ml le k']
    from st have hv: "hIdx v' = hIdx v' - 1 + 1" by simp
    show ?thesis
    proof (cases k')
      case 0
      with IH Suc hv show ?thesis by (simp add: ps)
    next
      case (Suc k'')
      with IH \<open>k = Suc k'\<close> show ?thesis by (simp add: ps)
    qed
  qed
qed

lemma loop_vars:
  "matchLoop h n i v = Some w \<Longrightarrow> i \<le> length n \<Longrightarrow>
     penalty w = penalty v + (int (hIdx w) - int (hIdx v)) - int (length n - i)
                 - int (length (filter (\<lambda>p. isWordBoundary h (int p)) (posOf (matchTrace h n i v))))
     \<and> consecutive w = runAfter h n (consecutive v) i (posOf (matchTrace h n i v))
     \<and> firstMatchIndex w = (if firstMatchIndex v = - 1 \<and> i < length n
                            then int (hd (posOf (matchTrace h n i v))) else firstMatchIndex v)"
proof (induction h n i v rule: matchLoop.induct)
  case (1 h n i v)
  show ?case
  proof (cases "i < length n")
    case False
    with "1.prems" loop_done [OF False, of h v] show ?thesis by (simp add: posOf_def)
  next
    case True
    from loop_unfold [OF True "1.prems"(1)] obtain v'
      where sc: "scan h n i v = (True, v')" and ml: "matchLoop h n (i + 1) v' = Some w"
        and tr: "matchTrace h n i v = v' # matchTrace h n (i + 1) v'" by blast
    from True have le: "i + 1 \<le> length n" by simp
    note IH = "1.IH" [OF True sc [symmetric] refl ml le]
    note st = scan_step [OF sc]
    let ?ps = "posOf (matchTrace h n (i + 1) v')"
    have ps: "posOf (matchTrace h n i v) = (hIdx v' - 1) # ?ps"
      by (simp add: tr posOf_def)
    have nz: "firstMatchIndex v = - 1 \<Longrightarrow> firstMatchIndex v' \<noteq> - 1"
      using st by simp
    from st have hl: "int (hIdx v' - 1 - hIdx v) = int (hIdx v') - 1 - int (hIdx v)"
      by (simp add: of_nat_diff)
    from True have ln: "int (length n - i) = int (length n - (i + 1)) + 1"
      by (simp add: of_nat_diff)
    have a: "penalty w = penalty v + (int (hIdx w) - int (hIdx v)) - int (length n - i)
                 - int (length (filter (\<lambda>p. isWordBoundary h (int p)) (posOf (matchTrace h n i v))))"
      using IH st hl ln by (simp add: ps)
    have b: "consecutive w = runAfter h n (consecutive v) i (posOf (matchTrace h n i v))"
      using IH st by (simp add: ps)
    have c: "firstMatchIndex w = (if firstMatchIndex v = - 1 \<and> i < length n
                            then int (hd (posOf (matchTrace h n i v))) else firstMatchIndex v)"
      using IH st True nz by (simp add: ps)
    from a b c show ?thesis by blast
  qed
qed

lemma adjacent_le_run:
  assumes "\<forall>k < length ps. h ! (ps ! k) = n ! (i + k)"
    and "ca \<le> c" and "0 < i \<longrightarrow> 1 \<le> c"
    and "case prev of None \<Rightarrow> i = 0 | Some q \<Rightarrow> 0 < i \<and> h ! q = n ! (i - 1)"
  shows "adjacentRunAfter ca prev ps \<le> runAfter h n c i ps"
  using assms
proof (induction ps arbitrary: ca c prev i)
  case Nil
  then show ?case by simp
next
  case (Cons p ps)
  let ?ca = "if prev \<noteq> None \<and> p = the prev + 1 then ca + 1 else 1"
  let ?c = "if 0 < i \<and> 0 < p \<and> h ! (p - 1) = n ! (i - 1) then c + 1 else 1"
  from Cons.prems(1) have hp: "h ! p = n ! i" by (auto dest: spec [of _ 0])
  from Cons.prems(1) have tl: "\<forall>k < length ps. h ! (ps ! k) = n ! (i + 1 + k)"
    by (auto dest: spec [of _ "Suc k" for k])
  have le: "?ca \<le> ?c"
    using Cons.prems(2,3,4) by (auto split: option.splits)
  have one: "0 < i + 1 \<longrightarrow> 1 \<le> ?c" using Cons.prems(3) by auto
  have pr: "case Some p of None \<Rightarrow> i + 1 = 0 | Some q \<Rightarrow> 0 < i + 1 \<and> h ! q = n ! (i + 1 - 1)"
    using hp by simp
  from Cons.IH [OF tl le one pr] show ?case by simp
qed


lemma matchPositions_posOf:
  "matchPositions h n
   = posOf (matchTrace h n 0 \<lparr>hIdx = 0, penalty = 0, consecutive = 0, firstMatchIndex = - 1\<rparr>)"
  by (simp add: matchPositions_def)

lemma loop_last:
  "matchLoop h n i v = Some w \<Longrightarrow> w = last (v # matchTrace h n i v)"
proof (induction h n i v rule: matchLoop.induct)
  case (1 h n i v)
  show ?case
  proof (cases "i < length n")
    case False
    with "1.prems" loop_done [OF False, of h v] show ?thesis by simp
  next
    case True
    from loop_unfold [OF True "1.prems"] obtain v'
      where sc: "scan h n i v = (True, v')" and ml: "matchLoop h n (i + 1) v' = Some w"
        and tr: "matchTrace h n i v = v' # matchTrace h n (i + 1) v'" by blast
    from "1.IH" [OF True sc [symmetric] refl ml] show ?thesis by (simp add: tr)
  qed
qed

lemma loop_counts:
  "matchLoop h n i v = Some w \<Longrightarrow> i \<le> length n \<Longrightarrow> k < length n - i \<Longrightarrow>
     consecutive (matchTrace h n i v ! k)
     = (if 0 < i + k \<and> 0 < posOf (matchTrace h n i v) ! k
           \<and> h ! (posOf (matchTrace h n i v) ! k - 1) = n ! (i + k - 1)
        then consecutive ((v # matchTrace h n i v) ! k) + 1 else 1)"
proof (induction h n i v arbitrary: k rule: matchLoop.induct)
  case (1 h n i v)
  from "1.prems" have True: "i < length n" by simp
  from loop_unfold [OF True "1.prems"(1)] obtain v'
    where sc: "scan h n i v = (True, v')" and ml: "matchLoop h n (i + 1) v' = Some w"
      and tr: "matchTrace h n i v = v' # matchTrace h n (i + 1) v'" by blast
  from True have le: "i + 1 \<le> length n" by simp
  note st = scan_step [OF sc]
  have ps: "posOf (matchTrace h n i v) = (hIdx v' - 1) # posOf (matchTrace h n (i + 1) v')"
    by (simp add: tr posOf_def)
  show ?case
  proof (cases k)
    case 0
    with st show ?thesis unfolding ps by (simp add: tr)
  next
    case (Suc k')
    with "1.prems" have k': "k' < length n - (i + 1)" by simp
    from "1.IH" [OF True sc [symmetric] refl ml le k'] Suc show ?thesis
      unfolding ps by (simp add: tr)
  qed
qed

text \<open>
  C6 (as amended). For a needle that matches, let \<open>ps\<close> be the positions of the
  leftmost matches of the needle characters and \<open>cs\<close> the run counter after each match.
  The counter is 1 after the first match, grows by one at a match that lies right after
  the previous match, and restarts at 1 at a match whose preceding haystack character
  differs from the previous needle character. The score is the number of skipped
  haystack characters, minus one for each match at a word boundary, plus the prefix and
  word bonuses, minus the counter at its final value: only the count of the last run is
  subtracted, once. Nothing is stated about a match that does not lie right after the
  previous match but is preceded by a copy of the previous needle character.
\<close>

theorem fuzzyScore_run_counter:
  assumes "needle \<noteq> []" and "fuzzyScore haystack needle = Some s"
  shows "let h = toLowerCase haystack; n = toLowerCase needle;
             ps = matchPositions h n; cs = runCounts h n
         in length ps = length n \<and> length cs = length n \<and> sorted_wrt (<) ps
            \<and> (\<forall>k < length n. ps ! k < length h \<and> h ! (ps ! k) = n ! k
                  \<and> (\<forall>j. (if k = 0 then 0 else ps ! (k - 1) + 1) \<le> j \<and> j < ps ! k
                          \<longrightarrow> h ! j \<noteq> n ! k))
            \<and> cs ! 0 = 1
            \<and> (\<forall>k. Suc k < length n \<and> ps ! Suc k = ps ! k + 1 \<longrightarrow> cs ! Suc k = cs ! k + 1)
            \<and> (\<forall>k. Suc k < length n \<and> h ! (ps ! Suc k - 1) \<noteq> n ! k \<longrightarrow> cs ! Suc k = 1)
            \<and> s = max 0 (int (last ps + 1) - int (length n)
                         - int (length (filter (\<lambda>p. isWordBoundary h (int p)) ps))
                         + (if startsWith h n then - 5 else 0)
                         + (if isWordBoundary h (int (hd ps)) then - 3 else 0)
                         - last cs)
            \<and> adjacentRunAfter 0 None ps \<le> last cs"
proof -
  let ?h = "toLowerCase haystack" and ?n = "toLowerCase needle"
  let ?v0 = "\<lparr>hIdx = 0, penalty = 0, consecutive = 0, firstMatchIndex = - 1\<rparr>"
  let ?tr = "matchTrace ?h ?n 0 ?v0"
  let ?ps = "matchPositions ?h ?n"
  let ?cs = "runCounts ?h ?n"
  from assms(1) have n0: "0 < length ?n" by (simp add: toLowerCase_def)
  from assms obtain w where ml: "matchLoop ?h ?n 0 ?v0 = Some w"
    and s: "s = max 0 (penalty w + (if startsWith ?h ?n then - 5 else 0)
                       + (if isWordBoundary ?h (firstMatchIndex w) then - 3 else 0)
                       + - consecutive w)"
    by (auto simp: fuzzyScore_def Let_def split: option.splits)
  have le: "0 \<le> length ?n" by simp
  note P = loop_positions [OF ml le, folded matchPositions_posOf]
  note V = loop_vars [OF ml le, folded matchPositions_posOf]
  have M: "\<forall>k < length ?n. ?ps ! k < length ?h \<and> ?h ! (?ps ! k) = ?n ! k
                  \<and> (\<forall>j. (if k = 0 then 0 else ?ps ! (k - 1) + 1) \<le> j \<and> j < ?ps ! k
                          \<longrightarrow> ?h ! j \<noteq> ?n ! k)"
  proof (intro allI impI)
    fix k assume "k < length ?n"
    then have "k < length ?n - 0" by simp
    note L = loop_matches [OF ml le this, folded matchPositions_posOf]
    show "?ps ! k < length ?h \<and> ?h ! (?ps ! k) = ?n ! k
          \<and> (\<forall>j. (if k = 0 then 0 else ?ps ! (k - 1) + 1) \<le> j \<and> j < ?ps ! k
                  \<longrightarrow> ?h ! j \<noteq> ?n ! k)"
      using L by (cases "k = 0") auto
  qed
  have len: "length ?ps = length ?n" using P by simp
  then have ltr: "length ?tr = length ?n" by (simp add: matchPositions_posOf posOf_def)
  then have lcs: "length ?cs = length ?n" by (simp add: runCounts_def)
  from ltr n0 have ne: "?tr \<noteq> []" by auto
  have C: "?cs ! k = (if 0 < k \<and> 0 < ?ps ! k \<and> ?h ! (?ps ! k - 1) = ?n ! (k - 1)
                      then consecutive ((?v0 # ?tr) ! k) + 1 else 1)"
    if "k < length ?n" for k
  proof -
    from that have "k < length ?n - 0" by simp
    from loop_counts [OF ml le this, folded matchPositions_posOf] that ltr
    show ?thesis by (simp add: runCounts_def)
  qed
  from C [of 0] n0 have c0: "?cs ! 0 = 1" by simp
  have step: "?cs ! Suc k = (if 0 < ?ps ! Suc k \<and> ?h ! (?ps ! Suc k - 1) = ?n ! k
                             then ?cs ! k + 1 else 1)"
    if "Suc k < length ?n" for k
    using C [OF that] that ltr by (simp add: runCounts_def)
  have adjc: "\<forall>k. Suc k < length ?n \<and> ?ps ! Suc k = ?ps ! k + 1 \<longrightarrow> ?cs ! Suc k = ?cs ! k + 1"
  proof (intro allI impI)
    fix k assume a: "Suc k < length ?n \<and> ?ps ! Suc k = ?ps ! k + 1"
    then have "k < length ?n" by simp
    with M have "?h ! (?ps ! k) = ?n ! k" by blast
    with a step [of k] show "?cs ! Suc k = ?cs ! k + 1" by simp
  qed
  have brk: "\<forall>k. Suc k < length ?n \<and> ?h ! (?ps ! Suc k - 1) \<noteq> ?n ! k \<longrightarrow> ?cs ! Suc k = 1"
    using step by simp
  from loop_last [OF ml] ne have "w = last ?tr" by simp
  with ne have lastc: "consecutive w = last ?cs" by (simp add: runCounts_def last_map)
  from P n0 have hw: "hIdx w = last ?ps + 1" by simp
  have pen: "penalty w = int (last ?ps + 1) - int (length ?n)
                         - int (length (filter (\<lambda>p. isWordBoundary ?h (int p)) ?ps))"
    using V hw by simp
  have con: "consecutive w = runAfter ?h ?n 0 0 ?ps" using V by simp
  have fst: "firstMatchIndex w = int (hd ?ps)" using V n0 by simp
  have "\<forall>k < length ?ps. ?h ! (?ps ! k) = ?n ! (0 + k)" using M len by simp
  then have "adjacentRunAfter 0 None ?ps \<le> runAfter ?h ?n 0 0 ?ps"
    by (rule adjacent_le_run) simp_all
  then have adj: "adjacentRunAfter 0 None ?ps \<le> last ?cs" using con lastc by simp
  have sc: "s = max 0 (int (last ?ps + 1) - int (length ?n)
                         - int (length (filter (\<lambda>p. isWordBoundary ?h (int p)) ?ps))
                         + (if startsWith ?h ?n then - 5 else 0)
                         + (if isWordBoundary ?h (int (hd ?ps)) then - 3 else 0)
                         - last ?cs)"
    unfolding s pen fst lastc by simp
  from len lcs P M c0 adjc brk sc adj show ?thesis unfolding Let_def by blast
qed

theorem fuzzyScore_run_counter_witness:
  "''abcd'' \<noteq> [] \<and> fuzzyScore ''xxxxxxxxxxxxab_cd'' ''abcd'' = Some 10
   \<and> matchPositions (toLowerCase ''xxxxxxxxxxxxab_cd'') (toLowerCase ''abcd'') = [12, 13, 15, 16]
   \<and> runCounts (toLowerCase ''xxxxxxxxxxxxab_cd'') (toLowerCase ''abcd'') = [1, 2, 1, 2]
   \<and> (10 :: int) = max 0 (int (last [12, 13, 15, 16 :: nat] + 1) - int (length (toLowerCase ''abcd''))
         - int (length (filter (\<lambda>p. isWordBoundary (toLowerCase ''xxxxxxxxxxxxab_cd'') (int p))
                          [12, 13, 15, 16]))
         + (if startsWith (toLowerCase ''xxxxxxxxxxxxab_cd'') (toLowerCase ''abcd'') then - 5 else 0)
         + (if isWordBoundary (toLowerCase ''xxxxxxxxxxxxab_cd'') (int (hd [12, 13, 15, 16 :: nat]))
            then - 3 else 0)
         - last [1, 2, 1, 2 :: int])"
proof -
  have h1: "''abcd'' \<noteq> []" by simp
  have h2: "fuzzyScore ''xxxxxxxxxxxxab_cd'' ''abcd'' = Some 10" by code_simp
  have p: "matchPositions (toLowerCase ''xxxxxxxxxxxxab_cd'') (toLowerCase ''abcd'')
           = [12, 13, 15, 16]"
    by code_simp
  have c: "runCounts (toLowerCase ''xxxxxxxxxxxxab_cd'') (toLowerCase ''abcd'') = [1, 2, 1, 2]"
    by code_simp
  from fuzzyScore_run_counter [OF h1 h2] h1 h2 p c show ?thesis
    unfolding Let_def p c by blast
qed

text \<open>
  C6 as stated fails. In \<open>xxxxxxxxa_ab\<close> the needle \<open>ab\<close> is matched at positions 8
  and 11, which are not adjacent, so the run counted by adjacency is 1; the counter of
  the code is 2, because the character before position 11 is another \<open>a\<close>, and the
  score is 10 - 2. In \<open>xxxxxxxxxxxxab_cd\<close> the needle \<open>abcd\<close> is matched in two runs of
  length 2; the penalty is 12 and the score 10: the first run subtracts nothing.
\<close>

theorem run_counter_counterexample:
  "matchPositions ''xxxxxxxxa_ab'' ''ab'' = [8, 11]
   \<and> adjacentRunAfter 0 None [8, 11] = 1
   \<and> map_option consecutive
        (matchLoop ''xxxxxxxxa_ab'' ''ab'' 0
           \<lparr>hIdx = 0, penalty = 0, consecutive = 0, firstMatchIndex = - 1\<rparr>) = Some 2
   \<and> fuzzyScore ''xxxxxxxxa_ab'' ''ab'' = Some 8
   \<and> matchPositions ''xxxxxxxxxxxxab_cd'' ''abcd'' = [12, 13, 15, 16]
   \<and> fuzzyScore ''xxxxxxxxxxxxab_cd'' ''abcd'' = Some 10"
  by code_simp

text \<open>
  The case left open above. In both haystacks the needle \<open>ab\<close> is matched at positions 8
  and 11; the character at position 10, which is not matched, decides whether the second
  match counts as the continuation of a run: the documented bonus is the length of the
  consecutive sequence, and the test of the preceding character misses that the two
  matches are not adjacent.
\<close>

theorem preceding_character_changes_score:
  "matchPositions ''xxxxxxxxa_ab'' ''ab'' = [8, 11]
   \<and> matchPositions ''xxxxxxxxa_cb'' ''ab'' = [8, 11]
   \<and> runCounts ''xxxxxxxxa_ab'' ''ab'' = [1, 2]
   \<and> runCounts ''xxxxxxxxa_cb'' ''ab'' = [1, 1]
   \<and> fuzzyScore ''xxxxxxxxa_ab'' ''ab'' = Some 8
   \<and> fuzzyScore ''xxxxxxxxa_cb'' ''ab'' = Some 9"
  by code_simp

section \<open>Properties of the ordering\<close>

lemma orderFrom_Nil: "orderFrom n [] m0 = m0"
  by (simp add: orderFrom_def)

lemma orderFrom_Cons: "orderFrom n (y # ys) m0 = orderFrom (Suc n) ys (m0(y \<mapsto> n))"
  by (simp add: orderFrom_def)

lemma orderFrom_notin: "x \<notin> set xs \<Longrightarrow> orderFrom n xs m0 x = m0 x"
proof (induction xs arbitrary: n m0)
  case Nil
  show ?case by (simp add: orderFrom_Nil)
next
  case (Cons y ys)
  then have "x \<notin> set ys" and "x \<noteq> y" by auto
  from Cons.IH [OF this(1)] this(2) show ?case
    unfolding orderFrom_Cons by simp
qed

lemma orderFrom_in: "x \<in> set xs \<Longrightarrow> \<exists>k. orderFrom n xs m0 x = Some k \<and> n \<le> k"
proof (induction xs arbitrary: n m0)
  case Nil
  then show ?case by simp
next
  case (Cons y ys)
  show ?case
  proof (cases "x \<in> set ys")
    case True
    from Cons.IH [OF True] obtain k
      where "orderFrom (Suc n) ys (m0(y \<mapsto> n)) x = Some k" and "Suc n \<le> k" by blast
    then have "orderFrom n (y # ys) m0 x = Some k \<and> n \<le> k"
      unfolding orderFrom_Cons by simp
    then show ?thesis by blast
  next
    case False
    with Cons.prems have "x = y" by simp
    with False have "orderFrom n (y # ys) m0 x = Some n"
      unfolding orderFrom_Cons by (simp add: orderFrom_notin)
    then show ?thesis by blast
  qed
qed

lemma orderFrom_remdups:
  "sorted_wrt (\<lambda>a b. idOrder (orderFrom n xs m0) a < idOrder (orderFrom n xs m0) b) (remdups xs)"
proof (induction xs arbitrary: n m0)
  case Nil
  then show ?case by simp
next
  case (Cons y ys)
  let ?m = "orderFrom (Suc n) ys (m0(y \<mapsto> n))"
  have IH: "sorted_wrt (\<lambda>a b. idOrder ?m a < idOrder ?m b) (remdups ys)"
    by (rule Cons.IH)
  show ?case
  proof (cases "y \<in> set ys")
    case True
    with IH show ?thesis unfolding orderFrom_Cons by simp
  next
    case False
    have "idOrder ?m y < idOrder ?m z" if "z \<in> set ys" for z
    proof -
      from orderFrom_in [OF that] obtain k where "?m z = Some k" and "Suc n \<le> k" by blast
      moreover from False have "?m y = Some n" by (simp add: orderFrom_notin)
      ultimately show ?thesis by (simp add: idOrder_def)
    qed
    with False IH show ?thesis unfolding orderFrom_Cons by simp
  qed
qed

lemma map_insort_key: "map f (insort_key (\<lambda>x. g (f x)) x xs) = insort_key g (f x) (map f xs)"
  by (induction xs) auto

lemma map_sort_key: "map f (sort_key (\<lambda>x. g (f x)) xs) = sort_key g (map f xs)"
  by (induction xs) (auto simp: map_insort_key)

lemma sorted_wrt_less_inj:
  fixes f :: "'a \<Rightarrow> enat"
  assumes "sorted_wrt (\<lambda>a b. f a < f b) xs"
  shows "inj_on f (set xs)"
proof (rule inj_onI)
  fix a b assume a: "a \<in> set xs" and b: "b \<in> set xs" and eq: "f a = f b"
  show "a = b"
  proof (rule ccontr)
    assume ne: "a \<noteq> b"
    from a obtain i where i: "i < length xs" "xs ! i = a" by (auto simp: in_set_conv_nth)
    from b obtain j where j: "j < length xs" "xs ! j = b" by (auto simp: in_set_conv_nth)
    from ne i j have "i \<noteq> j" by auto
    then consider "i < j" | "j < i" by linarith
    then show False
    proof cases
      case 1
      with assms i j have "f a < f b" by (auto simp: sorted_wrt_iff_nth_less)
      with eq show False by simp
    next
      case 2
      with assms i j have "f b < f a" by (auto simp: sorted_wrt_iff_nth_less)
      with eq show False by simp
    qed
  qed
qed

lemma sorted_wrt_less_sorted_map:
  fixes f :: "'a \<Rightarrow> enat"
  assumes "sorted_wrt (\<lambda>a b. f a < f b) xs"
  shows "sorted (map f xs)"
proof -
  from assms have "sorted_wrt (\<lambda>a b. f a \<le> f b) xs"
    by (rule sorted_wrt_mono_rel [rotated]) simp
  then show ?thesis by (simp add: sorted_map)
qed

lemma selected_ids_in_order:
  assumes d: "distinct (map item_id items)"
  shows "map item_id (fst (separateItems items selectedIds))
         = filter (\<lambda>x. x \<in> item_id ` set items) (remdups selectedIds)"
proof -
  let ?m = "selectedOrder selectedIds"
  let ?k = "idOrder ?m"
  let ?sel = "filter (\<lambda>it. item_id it \<in> set selectedIds) items"
  let ?L = "sort_key ?k (map item_id ?sel)"
  let ?R = "filter (\<lambda>x. x \<in> item_id ` set items) (remdups selectedIds)"
  have ord: "orderOf ?m = (\<lambda>it. ?k (item_id it))"
    by (rule ext) (simp add: orderOf_def idOrder_def)
  have lhs: "map item_id (fst (separateItems items selectedIds)) = ?L"
    by (simp add: separateItems_def Let_def ord map_sort_key)
  have sw: "sorted_wrt (\<lambda>a b. ?k a < ?k b) (remdups selectedIds)"
    using orderFrom_remdups [of 0 selectedIds Map.empty]
    by (simp add: selectedOrder_def orderFrom_def)
  then have inj: "inj_on ?k (set selectedIds)"
    using sorted_wrt_less_inj [of ?k "remdups selectedIds"] by simp
  have dsel: "distinct (map item_id ?sel)"
    using d by (simp add: distinct_map_filter)
  have setL: "set ?L = set ?R" by auto
  have sub: "set ?L \<union> set ?R \<subseteq> set selectedIds" by auto
  have "sorted_wrt (\<lambda>a b. ?k a < ?k b) ?R"
    using sw by (rule sorted_wrt_filter)
  then have sR: "sorted (map ?k ?R)" by (rule sorted_wrt_less_sorted_map)
  have dR: "distinct (map ?k ?R)"
    by (rule iffD2 [OF distinct_map]) (use inj sub in \<open>auto intro: inj_on_subset\<close>)
  have sL: "sorted (map ?k ?L)" by (rule sorted_sort_key)
  have dL: "distinct (map ?k ?L)"
    by (rule iffD2 [OF distinct_map]) (use inj sub dsel in \<open>auto intro: inj_on_subset\<close>)
  have "?L = ?R"
    by (rule map_sorted_distinct_set_unique [of ?k, OF _ sL dL sR dR setL])
       (use inj sub in \<open>auto intro: inj_on_subset\<close>)
  with lhs show ?thesis by simp
qed

lemma distinct_mset_subseteq:
  assumes "mset xs \<subseteq># mset ys" and "distinct ys"
  shows "distinct xs"
proof -
  have "count (mset xs) a \<le> 1" for a
  proof -
    from assms(1) have "count (mset xs) a \<le> count (mset ys) a" by (rule mset_subset_eq_count)
    also from assms(2) have "\<dots> \<le> 1" by (simp add: distinct_count_atmost_1)
    finally show ?thesis .
  qed
  then show ?thesis
    by (metis count_mset_0_iff distinct_count_atmost_1 le_neq_implies_less less_one)
qed

lemma separateItems_fst:
  "fst (separateItems items sel)
   = sort_key (orderOf (selectedOrder sel)) (filter (\<lambda>it. item_id it \<in> set sel) items)"
  by (simp add: separateItems_def Let_def)

lemma separateItems_snd:
  "snd (separateItems items sel) = filter (\<lambda>it. item_id it \<notin> set sel) items"
  by (simp add: separateItems_def Let_def comp_def)

lemma map_item_map_filter:
  "map item (List.map_filter (\<lambda>it. case sc it of None \<Rightarrow> None | Some s \<Rightarrow> Some \<lparr>item = it, score = s\<rparr>) xs)
   = filter (\<lambda>it. sc it \<noteq> None) xs"
  by (induction xs) (auto simp: List.map_filter_simps split: option.splits)

lemma fuzzyFilter_items_mset:
  "mset (map item (fst (fuzzyFilter_traced xs getText q None)))
   = mset (filter (\<lambda>it. fuzzyScore (getText it) q \<noteq> None) xs)"
proof -
  let ?cs = "List.map_filter (\<lambda>it. case fuzzyScore (getText it) q of
                                   None \<Rightarrow> None | Some s \<Rightarrow> Some \<lparr>item = it, score = s\<rparr>) xs"
  have "mset (map item (sort_key score ?cs)) = mset (map item ?cs)"
    by simp
  then show ?thesis
    by (simp add: fuzzyFilter_traced_def Let_def map_item_map_filter del: mset_map)
qed

lemma orderItemsSync_shape:
  "\<exists>U. orderItemsSync items sel query = fst (separateItems items sel) @ U
       \<and> mset U \<subseteq># mset (filter (\<lambda>it. item_id it \<notin> set sel) items)"
proof -
  obtain S N where sep: "separateItems items sel = (S, N)" by (cases "separateItems items sel")
  with separateItems_snd [of items sel]
  have N: "N = filter (\<lambda>it. item_id it \<notin> set sel) items" by simp
  show ?thesis
  proof (cases "query = None \<or> query = Some []")
    case True
    with sep N show ?thesis
      by (auto simp: orderItemsSync_def orderItemsSync_traced_def)
  next
    case False
    then obtain q where q: "query = Some q" "q \<noteq> []" by auto
    let ?U = "map item (fst (fuzzyFilter_traced N label q None))"
    have "orderItemsSync items sel query = S @ ?U"
      using sep q by (simp add: orderItemsSync_def orderItemsSync_traced_def split: prod.splits)
    moreover have "mset ?U \<subseteq># mset N"
      unfolding fuzzyFilter_items_mset by simp
    ultimately show ?thesis using sep N by auto
  qed
qed

lemma orderItemsAsync_shape:
  "orderItemsAsync items sel
   = fst (separateItems items sel) @ filter (\<lambda>it. item_id it \<notin> set sel) items"
  using separateItems_snd [of items sel]
  by (cases "separateItems items sel") (simp add: orderItemsAsync_def)

lemma selected_prefix:
  assumes d: "distinct (map item_id items)"
    and out: "out = fst (separateItems items sel) @ U"
    and U: "mset U \<subseteq># mset (filter (\<lambda>it. item_id it \<notin> set sel) items)"
    and k: "k = length (filter (\<lambda>it. item_id it \<in> set sel) items)"
  shows "set (take k out) = {it \<in> set items. item_id it \<in> set sel}
         \<and> map item_id (take k out) = filter (\<lambda>x. x \<in> item_id ` set items) (remdups sel)
         \<and> (distinct sel \<longrightarrow> map item_id (take k out) = filter (\<lambda>x. x \<in> item_id ` set items) sel)
         \<and> (\<forall>it \<in> set (drop k out). it \<in> set items \<and> item_id it \<notin> set sel)
         \<and> distinct (map item_id out)"
proof -
  let ?S = "fst (separateItems items sel)"
  have len: "length ?S = k" by (simp add: separateItems_fst k)
  then have tk: "take k out = ?S" and dr: "drop k out = U" by (simp_all add: out)
  have a: "set (take k out) = {it \<in> set items. item_id it \<in> set sel}"
    unfolding tk by (auto simp: separateItems_fst)
  have b: "map item_id (take k out) = filter (\<lambda>x. x \<in> item_id ` set items) (remdups sel)"
    unfolding tk by (rule selected_ids_in_order [OF d])
  have c: "distinct sel \<longrightarrow> map item_id (take k out) = filter (\<lambda>x. x \<in> item_id ` set items) sel"
    using b by (simp add: distinct_remdups_id)
  from U have "set_mset (mset U) \<subseteq> set_mset (mset (filter (\<lambda>it. item_id it \<notin> set sel) items))"
    by (rule set_mset_mono)
  then have e: "\<forall>it \<in> set (drop k out). it \<in> set items \<and> item_id it \<notin> set sel"
    unfolding dr by auto
  have "mset ?S = mset (filter (\<lambda>it. item_id it \<in> set sel) items)"
    by (simp add: separateItems_fst)
  then have "mset out = filter_mset (\<lambda>it. item_id it \<in> set sel) (mset items) + mset U"
    by (simp add: out)
  also from U have "\<dots> \<subseteq># filter_mset (\<lambda>it. item_id it \<in> set sel) (mset items)
                         + filter_mset (\<lambda>it. item_id it \<notin> set sel) (mset items)"
    by (simp only: mset_subset_eq_mono_add_left_cancel mset_filter)
  also have "\<dots> = mset items"
    by (rule multiset_partition [symmetric])
  finally have "mset out \<subseteq># mset items" .
  then have "image_mset item_id (mset out) \<subseteq># image_mset item_id (mset items)"
    by (rule image_mset_subseteq_mono)
  then have "mset (map item_id out) \<subseteq># mset (map item_id items)" by simp
  then have f: "distinct (map item_id out)" using d by (rule distinct_mset_subseteq)
  from a b c e f show ?thesis by blast
qed

text \<open>
  C1. For items with pairwise distinct ids, any list of selected ids and any query, the
  ordered view of \<open>orderItemsSync\<close> and of \<open>orderItemsAsync\<close> starts with exactly the
  input items whose id is selected, in the order of \<open>selectedIds\<close> (an id that occurs
  more than once counts at its last occurrence, which is what \<open>remdups\<close> keeps), and
  continues with unselected items only; the query removes no selected item, and no item
  occurs twice.
\<close>

theorem ordered_view_selected_prefix:
  assumes "distinct (map item_id items)"
  shows "let k = length (filter (\<lambda>it. item_id it \<in> set selectedIds) items)
         in \<forall>out \<in> {orderItemsSync items selectedIds query, orderItemsAsync items selectedIds}.
              set (take k out) = {it \<in> set items. item_id it \<in> set selectedIds}
              \<and> map item_id (take k out)
                  = filter (\<lambda>x. x \<in> item_id ` set items) (remdups selectedIds)
              \<and> (distinct selectedIds \<longrightarrow>
                    map item_id (take k out) = filter (\<lambda>x. x \<in> item_id ` set items) selectedIds)
              \<and> (\<forall>it \<in> set (drop k out). it \<in> set items \<and> item_id it \<notin> set selectedIds)
              \<and> distinct (map item_id out)"
proof -
  obtain U where U: "orderItemsSync items selectedIds query = fst (separateItems items selectedIds) @ U"
    "mset U \<subseteq># mset (filter (\<lambda>it. item_id it \<notin> set selectedIds) items)"
    using orderItemsSync_shape by blast
  note s = selected_prefix [OF assms U refl]
  have "mset (filter (\<lambda>it. item_id it \<notin> set selectedIds) items)
        \<subseteq># mset (filter (\<lambda>it. item_id it \<notin> set selectedIds) items)" by simp
  note a = selected_prefix [OF assms orderItemsAsync_shape this refl]
  from s a show ?thesis unfolding Let_def by blast
qed

theorem ordered_view_selected_prefix_witness:
  "distinct (map item_id mockItems)
   \<and> map item_id (orderItemsSync mockItems [''4'', ''2''] (Some ''al'')) = [''4'', ''2'', ''1'']
   \<and> map item_id (take 2 (orderItemsSync mockItems [''4'', ''2''] (Some ''al'')))
       = filter (\<lambda>x. x \<in> item_id ` set mockItems) [''4'', ''2'']"
proof -
  have h: "distinct (map item_id mockItems)" by (simp add: mockItems_def)
  have k: "length (filter (\<lambda>it. item_id it \<in> set [''4'', ''2'']) mockItems) = 2"
    by (simp add: mockItems_def)
  have e: "map item_id (orderItemsSync mockItems [''4'', ''2''] (Some ''al'')) = [''4'', ''2'', ''1'']"
    by code_simp
  from ordered_view_selected_prefix [OF h, of "[''4'', ''2'']" "Some ''al''"] h e
  show ?thesis unfolding Let_def k by simp
qed

text \<open>
  C4. With an empty or absent query, \<open>orderItemsSync\<close> returns the selected partition
  followed by the unselected items in input order; the output is as long as the input,
  its ids are ids of the input, and \<open>fuzzyScore\<close> is called on nothing.
\<close>

theorem orderItemsSync_empty_query:
  assumes "query = None \<or> query = Some []"
  shows "orderItemsSync items selectedIds query
           = sort_key (orderOf (selectedOrder selectedIds))
               (filter (\<lambda>it. item_id it \<in> set selectedIds) items)
             @ filter (\<lambda>it. item_id it \<notin> set selectedIds) items
         \<and> length (orderItemsSync items selectedIds query) = length items
         \<and> set (map item_id (orderItemsSync items selectedIds query)) \<subseteq> set (map item_id items)
         \<and> snd (orderItemsSync_traced items selectedIds query) = []"
proof -
  obtain S N where sep: "separateItems items selectedIds = (S, N)"
    by (cases "separateItems items selectedIds")
  from sep separateItems_fst [of items selectedIds]
  have S: "S = sort_key (orderOf (selectedOrder selectedIds))
                 (filter (\<lambda>it. item_id it \<in> set selectedIds) items)" by simp
  from sep separateItems_snd [of items selectedIds]
  have N: "N = filter (\<lambda>it. item_id it \<notin> set selectedIds) items" by simp
  from assms sep have tr: "orderItemsSync_traced items selectedIds query = (S @ N, [])"
    by (auto simp: orderItemsSync_traced_def)
  then have out: "orderItemsSync items selectedIds query = S @ N"
    by (simp add: orderItemsSync_def)
  have len: "length (S @ N) = length items"
    unfolding S N using sum_length_filter_compl [of "\<lambda>it. item_id it \<in> set selectedIds" items]
    by simp
  have sub: "set (map item_id (S @ N)) \<subseteq> set (map item_id items)"
    unfolding S N by auto
  from tr out len sub show ?thesis unfolding S N by simp
qed

theorem orderItemsSync_empty_query_witness:
  "map item_id (orderItemsSync mockItems [''2'', ''4''] (Some [])) = [''2'', ''4'', ''1'', ''3'']
   \<and> length (orderItemsSync mockItems [''2'', ''4''] (Some [])) = length mockItems
   \<and> snd (orderItemsSync_traced mockItems [''2'', ''4''] (Some [])) = []"
proof -
  have h: "Some [] = None \<or> Some ([] :: string) = Some []" by simp
  have e: "map item_id (orderItemsSync mockItems [''2'', ''4''] (Some [])) = [''2'', ''4'', ''1'', ''3'']"
    by code_simp
  from orderItemsSync_empty_query [OF h, of mockItems "[''2'', ''4'']"] e
  show ?thesis by blast
qed

section \<open>Properties of the window\<close>

lemma renderedRows_in_range:
  assumes "(i, x) \<in> set (renderedRows items scrollTop height rowHeight overscan)"
  shows "0 \<le> i \<and> i \<le> int (length items) - 1 \<and> x = items ! nat i"
proof -
  let ?s = "startIndex scrollTop rowHeight overscan"
  let ?vis = "visibleItems items scrollTop height rowHeight overscan"
  have s0: "0 \<le> ?s" by (simp add: startIndex_def)
  from assms obtain j where j: "j < length ?vis" and i: "i = ?s + int j" and x: "x = ?vis ! j"
    by (auto simp: renderedRows_def in_set_enumerate_eq)
  let ?len = "int (length items)"
  let ?e = "endIndex (length items) scrollTop height rowHeight overscan + 1"
  let ?e' = "if ?e < 0 then max (?len + ?e) 0 else min ?e ?len"
  have vis: "?vis = take (nat (?e' - min ?s ?len)) (drop (nat (min ?s ?len)) items)"
    using s0 by (simp add: visibleItems_def js_slice_def Let_def)
  have e'len: "?e' \<le> ?len" by auto
  from j vis have jl: "j < length items - nat (min ?s ?len)" and je: "int j < ?e' - min ?s ?len"
    by auto
  from jl s0 have slt: "?s < ?len" by (auto simp: min_def split: if_splits)
  then have m: "min ?s ?len = ?s" by simp
  from je m e'len have "?s + int j < ?len" by linarith
  moreover from x vis j m s0 jl have "x = items ! nat (?s + int j)"
    by (simp add: nat_add_distrib)
  ultimately show ?thesis using s0 i by simp
qed

text \<open>
  C7. For a non-negative scroll offset, a positive row height, a non-negative viewport
  height and a non-negative overscan, every index between \<open>startIndex\<close> and \<open>endIndex\<close>
  lies in \<open>[0, totalCount - 1]\<close>, every row handed to \<open>renderRow\<close> carries such an
  index together with the item at that index, and with no items the window is empty
  (no index, no row, content height 0).
\<close>

theorem window_in_bounds:
  assumes "0 \<le> scrollTop" and "0 < rowHeight" and "0 \<le> height" and "0 \<le> overscan"
  shows "(\<forall>i. startIndex scrollTop rowHeight overscan \<le> i
               \<and> i \<le> endIndex totalCount scrollTop height rowHeight overscan
             \<longrightarrow> 0 \<le> i \<and> i \<le> int totalCount - 1)
         \<and> (\<forall>(i, x) \<in> set (renderedRows items scrollTop height rowHeight overscan).
               0 \<le> i \<and> i \<le> int (length items) - 1 \<and> x = items ! nat i)
         \<and> (totalCount = 0 \<longrightarrow>
               \<not> (\<exists>i. startIndex scrollTop rowHeight overscan \<le> i
                        \<and> i \<le> endIndex totalCount scrollTop height rowHeight overscan))
         \<and> (items = [] \<longrightarrow> renderedRows items scrollTop height rowHeight overscan = []
                              \<and> contentHeight (length items) rowHeight = 0)"
proof -
  have a: "\<forall>i. startIndex scrollTop rowHeight overscan \<le> i
               \<and> i \<le> endIndex totalCount scrollTop height rowHeight overscan
             \<longrightarrow> 0 \<le> i \<and> i \<le> int totalCount - 1"
    by (auto simp: startIndex_def endIndex_def)
  have b: "\<forall>(i, x) \<in> set (renderedRows items scrollTop height rowHeight overscan).
               0 \<le> i \<and> i \<le> int (length items) - 1 \<and> x = items ! nat i"
    using renderedRows_in_range by fast
  have c: "totalCount = 0 \<longrightarrow>
               \<not> (\<exists>i. startIndex scrollTop rowHeight overscan \<le> i
                        \<and> i \<le> endIndex totalCount scrollTop height rowHeight overscan)"
    by (auto simp: startIndex_def endIndex_def)
  have d: "items = [] \<longrightarrow> renderedRows items scrollTop height rowHeight overscan = []
                              \<and> contentHeight (length items) rowHeight = 0"
    by (simp add: renderedRows_def visibleItems_def js_slice_def contentHeight_def)
  from a b c d show ?thesis by blast
qed

theorem window_in_bounds_witness:
  "(0::real) \<le> 40 \<and> (0::real) < 36 \<and> (0::real) \<le> 72 \<and> (0::int) \<le> 0
   \<and> startIndex 40 36 0 = 1 \<and> endIndex 4 40 72 36 0 = 3
   \<and> startIndex 40 36 0 \<le> 2 \<and> 2 \<le> endIndex 4 40 72 36 0 \<and> (0::int) \<le> 2 \<and> (2::int) \<le> int 4 - 1
   \<and> map fst (renderedRows mockItems 40 72 36 0) = [1, 2, 3]
   \<and> renderedRows ([] :: Item list) 40 72 36 0 = []
   \<and> contentHeight (length ([] :: Item list)) 36 = 0"
proof -
  have h1: "(0::real) \<le> 40" and h2: "(0::real) < 36" and h3: "(0::real) \<le> 72"
    and h4: "(0::int) \<le> 0" by simp_all
  have s: "startIndex 40 36 0 = 1" and e: "endIndex 4 40 72 36 0 = 3"
    by (simp_all add: startIndex_def endIndex_def)
  have r: "map fst (renderedRows mockItems 40 72 36 0) = [1, 2, 3]"
    by (simp add: renderedRows_def visibleItems_def js_slice_def startIndex_def endIndex_def
          mockItems_def enumerate_eq_zip)
  from window_in_bounds [OF h1 h2 h3 h4, of 4 mockItems] have
    a: "startIndex 40 36 0 \<le> 2 \<and> 2 \<le> endIndex 4 40 72 36 0 \<longrightarrow> (0::int) \<le> 2 \<and> (2::int) \<le> int 4 - 1"
    by blast
  from window_in_bounds [OF h1 h2 h3 h4, of 0 "[] :: Item list"] have
    b: "renderedRows ([] :: Item list) 40 72 36 0 = []
        \<and> contentHeight (length ([] :: Item list)) 36 = 0"
    by blast
  from a b s e r show ?thesis by simp
qed

section \<open>Properties of selection and keyboard handling\<close>

lemma js_slice_butlast: "js_slice xs 0 (- 1) = butlast xs"
  by (cases "xs = []") (simp_all add: js_slice_def Let_def butlast_conv_take nat_diff_distrib')

lemma filter_neq_notin: "ident \<notin> set xs \<Longrightarrow> filter (\<lambda>x. x \<noteq> ident) xs = xs"
  by (induction xs) auto

lemma commitSelection_remove:
  "ident \<in> set (w_selectedIds w) \<Longrightarrow>
     commitSelection ident w
     = w\<lparr>w_selectedIds := filter (\<lambda>x. x \<noteq> ident) (w_selectedIds w),
         w_selectedItemsCache := (if w_isAsync w then (w_selectedItemsCache w)(ident := None)
                                  else w_selectedItemsCache w),
         w_query := []\<rparr>"
  by (simp add: commitSelection_def Let_def)

lemma commitSelection_add:
  "ident \<notin> set (w_selectedIds w) \<Longrightarrow>
     commitSelection ident w
     = w\<lparr>w_selectedIds := ident # w_selectedIds w,
         w_selectedItemsCache :=
           (if w_isAsync w then
              (case find (\<lambda>i. item_id i = ident) (w_asyncItems w) of
                 Some it \<Rightarrow> (w_selectedItemsCache w)(ident \<mapsto> it)
               | None \<Rightarrow> w_selectedItemsCache w)
            else w_selectedItemsCache w),
         w_query := []\<rparr>"
  by (simp add: commitSelection_def Let_def filter_neq_notin)

text \<open>
  C5. \<open>commitSelection\<close> is one state transition: a selected id is removed and the other
  ids keep their order; an unselected id is put at the front; the query becomes the empty
  string; in server mode the cache entry of the id is deleted on removal and, on
  addition, the fetched item of that id is stored under it; no other field changes.
\<close>

theorem commitSelection_toggles:
  "(ident \<in> set (w_selectedIds w) \<longrightarrow>
      w_selectedIds (commitSelection ident w) = filter (\<lambda>x. x \<noteq> ident) (w_selectedIds w))
   \<and> (ident \<notin> set (w_selectedIds w) \<longrightarrow>
      w_selectedIds (commitSelection ident w) = ident # w_selectedIds w)
   \<and> w_query (commitSelection ident w) = []
   \<and> (w_isAsync w \<and> ident \<in> set (w_selectedIds w) \<longrightarrow>
      w_selectedItemsCache (commitSelection ident w) = (w_selectedItemsCache w)(ident := None))
   \<and> (w_isAsync w \<and> ident \<notin> set (w_selectedIds w) \<longrightarrow>
      (\<forall>it. find (\<lambda>i. item_id i = ident) (w_asyncItems w) = Some it \<longrightarrow>
         w_selectedItemsCache (commitSelection ident w) = (w_selectedItemsCache w)(ident \<mapsto> it)))
   \<and> (\<not> w_isAsync w \<longrightarrow>
      w_selectedItemsCache (commitSelection ident w) = w_selectedItemsCache w)
   \<and> commitSelection ident w
       = w\<lparr>w_selectedIds := w_selectedIds (commitSelection ident w),
           w_selectedItemsCache := w_selectedItemsCache (commitSelection ident w),
           w_query := []\<rparr>"
proof (cases "ident \<in> set (w_selectedIds w)")
  case True
  show ?thesis unfolding commitSelection_remove [OF True] using True by simp
next
  case False
  show ?thesis unfolding commitSelection_add [OF False] using False by simp
qed


theorem commitSelection_toggles_witness:
  "w_isAsync serverWidget \<and> ''2'' \<notin> set (w_selectedIds serverWidget)
   \<and> find (\<lambda>i. item_id i = ''2'') (w_asyncItems serverWidget)
       = Some \<lparr>item_id = ''2'', label = ''Beta'', group = Some ''B''\<rparr>
   \<and> w_selectedIds (commitSelection ''2'' serverWidget) = [''2'']
   \<and> w_query (commitSelection ''2'' serverWidget) = []
   \<and> w_selectedItemsCache (commitSelection ''2'' serverWidget)
       = [''2'' \<mapsto> \<lparr>item_id = ''2'', label = ''Beta'', group = Some ''B''\<rparr>]
   \<and> w_isAsync (commitSelection ''2'' serverWidget)
   \<and> ''2'' \<in> set (w_selectedIds (commitSelection ''2'' serverWidget))
   \<and> w_selectedIds (commitSelection ''2'' (commitSelection ''2'' serverWidget)) = []
   \<and> w_selectedItemsCache (commitSelection ''2'' (commitSelection ''2'' serverWidget)) = Map.empty"
proof -
  have a: "w_isAsync serverWidget" and b: "''2'' \<notin> set (w_selectedIds serverWidget)"
    and s: "w_selectedIds serverWidget = []" and c: "w_selectedItemsCache serverWidget = Map.empty"
    by (simp_all add: serverWidget_def)
  have f: "find (\<lambda>i. item_id i = ''2'') (w_asyncItems serverWidget)
           = Some \<lparr>item_id = ''2'', label = ''Beta'', group = Some ''B''\<rparr>"
    by (simp add: serverWidget_def mockItems_def)
  let ?w = "commitSelection ''2'' serverWidget"
  from commitSelection_toggles [of "''2''" serverWidget] a b f
  have 1: "w_selectedIds ?w = ''2'' # w_selectedIds serverWidget"
    and 2: "w_query ?w = []"
    and 3: "w_selectedItemsCache ?w
         = (w_selectedItemsCache serverWidget)
             (''2'' \<mapsto> \<lparr>item_id = ''2'', label = ''Beta'', group = Some ''B''\<rparr>)"
    by blast+
  have a': "w_isAsync ?w" unfolding commitSelection_add [OF b] by (simp add: a)
  have b': "''2'' \<in> set (w_selectedIds ?w)" by (simp add: 1)
  from commitSelection_toggles [of "''2''" ?w] a' b'
  have 4: "w_selectedIds (commitSelection ''2'' ?w) = filter (\<lambda>x. x \<noteq> ''2'') (w_selectedIds ?w)"
    and 5: "w_selectedItemsCache (commitSelection ''2'' ?w) = (w_selectedItemsCache ?w)(''2'' := None)"
    by blast+
  from a b f 1 2 3 a' b' 4 5 s c show ?thesis by simp
qed

text \<open>
  C10. In server mode, adding an id that is not among the fetched items leaves the cache
  as it was: the id is selected, but a lookup of its item gives what the cache held
  before, hence nothing when the cache had no entry for it.
\<close>

theorem commitSelection_unfetched_id:
  assumes "w_isAsync w" and "ident \<notin> set (w_selectedIds w)"
    and "ident \<notin> item_id ` set (w_asyncItems w)"
  shows "w_selectedItemsCache (commitSelection ident w) = w_selectedItemsCache w
         \<and> w_selectedIds (commitSelection ident w) = ident # w_selectedIds w
         \<and> getSelectedItem ident False its (w_selectedItemsCache (commitSelection ident w))
              (w_asyncItems (commitSelection ident w)) = w_selectedItemsCache w ident
         \<and> (w_selectedItemsCache w ident = None \<longrightarrow>
              getSelectedItem ident False its (w_selectedItemsCache (commitSelection ident w))
                (w_asyncItems (commitSelection ident w)) = None)"
proof -
  from assms(3) have f: "find (\<lambda>i. item_id i = ident) (w_asyncItems w) = None"
    by (auto simp: find_None_iff)
  have c: "w_selectedItemsCache (commitSelection ident w) = w_selectedItemsCache w"
    and a: "w_asyncItems (commitSelection ident w) = w_asyncItems w"
    and s: "w_selectedIds (commitSelection ident w) = ident # w_selectedIds w"
    unfolding commitSelection_add [OF assms(2)] using f by simp_all
  have g: "getSelectedItem ident False its (w_selectedItemsCache w) (w_asyncItems w)
           = w_selectedItemsCache w ident"
    using f by (simp add: getSelectedItem_def split: option.splits)
  from c a s g show ?thesis by simp
qed

theorem commitSelection_unfetched_id_witness:
  "w_isAsync serverWidget \<and> ''9'' \<notin> set (w_selectedIds serverWidget)
   \<and> ''9'' \<notin> item_id ` set (w_asyncItems serverWidget)
   \<and> w_selectedIds (commitSelection ''9'' serverWidget) = [''9'']
   \<and> w_selectedItemsCache (commitSelection ''9'' serverWidget) = Map.empty
   \<and> getSelectedItem ''9'' False None (w_selectedItemsCache (commitSelection ''9'' serverWidget))
        (w_asyncItems (commitSelection ''9'' serverWidget)) = None"
proof -
  have h1: "w_isAsync serverWidget" and h2: "''9'' \<notin> set (w_selectedIds serverWidget)"
    and h3: "''9'' \<notin> item_id ` set (w_asyncItems serverWidget)"
    by (simp_all add: serverWidget_def mockItems_def)
  have e: "w_selectedItemsCache serverWidget = Map.empty" "w_selectedIds serverWidget = []"
    by (simp_all add: serverWidget_def)
  note t = commitSelection_unfetched_id [OF h1 h2 h3, of None]
  from t have 1: "w_selectedItemsCache (commitSelection ''9'' serverWidget) = Map.empty"
    by (simp only: e)
  from t have 2: "w_selectedIds (commitSelection ''9'' serverWidget) = [''9'']"
    by (simp only: e)
  have n: "w_selectedItemsCache serverWidget ''9'' = None" by (simp add: e)
  from t have "w_selectedItemsCache serverWidget ''9'' = None \<longrightarrow>
      getSelectedItem ''9'' False None
        (w_selectedItemsCache (commitSelection ''9'' serverWidget))
        (w_asyncItems (commitSelection ''9'' serverWidget)) = None"
    by (elim conjE)
  with n have 3: "getSelectedItem ''9'' False None
        (w_selectedItemsCache (commitSelection ''9'' serverWidget))
        (w_asyncItems (commitSelection ''9'' serverWidget)) = None"
    by (rule rev_mp)
  from h1 h2 h3 1 2 3 show ?thesis by blast
qed

lemma twoSelected_fields:
  "w_selectedIds twoSelected = [''2'', ''1'']" "w_query twoSelected = []" "w_open twoSelected"
  "w_mruOrder twoSelected = []"
  by (simp_all add: twoSelected_def demoWidget_def commitSelection_def)

text \<open>
  C8 (as amended). In an open widget with an empty query and a selection whose last id is
  not the empty string, Backspace removes the id at the end of the selection sequence,
  puts it at the front of the MRU order and leaves the other ids as they were. Since
  \<open>commitSelection\<close> adds at the front, an addition never changes which id is at the end.
\<close>

theorem backspace_removes_last:
  assumes "w_open w" and "w_query w = []" and "w_selectedIds w \<noteq> []"
    and "last (w_selectedIds w) \<noteq> []"
  shows "onKeyDown ''Backspace'' w
           = (w\<lparr>w_selectedIds := butlast (w_selectedIds w),
                 w_mruOrder := last (w_selectedIds w)
                               # filter (\<lambda>x. x \<noteq> last (w_selectedIds w)) (w_mruOrder w)\<rparr>, True)
         \<and> w_selectedIds w
             = w_selectedIds (fst (onKeyDown ''Backspace'' w)) @ [last (w_selectedIds w)]
         \<and> (\<forall>ident. ident \<notin> set (w_selectedIds w) \<longrightarrow>
               last (w_selectedIds (commitSelection ident w)) = last (w_selectedIds w))"
proof -
  have a: "onKeyDown ''Backspace'' w
           = (w\<lparr>w_selectedIds := butlast (w_selectedIds w),
                 w_mruOrder := last (w_selectedIds w)
                               # filter (\<lambda>x. x \<noteq> last (w_selectedIds w)) (w_mruOrder w)\<rparr>, True)"
    using assms by (simp add: onKeyDown_def Let_def js_slice_butlast)
  have b: "w_selectedIds w
             = w_selectedIds (fst (onKeyDown ''Backspace'' w)) @ [last (w_selectedIds w)]"
    unfolding a using assms(3) by simp
  have c: "\<forall>ident. ident \<notin> set (w_selectedIds w) \<longrightarrow>
               last (w_selectedIds (commitSelection ident w)) = last (w_selectedIds w)"
    using assms(3) by (simp add: commitSelection_add)
  from a b c show ?thesis by blast
qed

theorem backspace_removes_last_witness:
  "w_open twoSelected \<and> w_query twoSelected = [] \<and> w_selectedIds twoSelected \<noteq> []
   \<and> last (w_selectedIds twoSelected) \<noteq> []
   \<and> w_selectedIds (fst (onKeyDown ''Backspace'' twoSelected)) = [''2'']
   \<and> w_mruOrder (fst (onKeyDown ''Backspace'' twoSelected)) = [''1'']"
proof -
  note f = twoSelected_fields
  have h3: "w_selectedIds twoSelected \<noteq> []" and h4: "last (w_selectedIds twoSelected) \<noteq> []"
    by (simp_all add: f)
  from backspace_removes_last [OF f(3) f(2) h3 h4]
  have "onKeyDown ''Backspace'' twoSelected
        = (twoSelected\<lparr>w_selectedIds := butlast (w_selectedIds twoSelected),
             w_mruOrder := last (w_selectedIds twoSelected)
               # filter (\<lambda>x. x \<noteq> last (w_selectedIds twoSelected)) (w_mruOrder twoSelected)\<rparr>, True)"
    by (rule conjunct1)
  then show ?thesis using f by simp
qed

text \<open>
  C8 as stated fails: after \<open>1\<close> and then \<open>2\<close> have been selected, Backspace removes
  \<open>1\<close>, the id selected first, and keeps \<open>2\<close>, the id selected last; and in a closed
  widget Backspace removes nothing.
\<close>

theorem backspace_counterexample:
  "twoSelected = commitSelection ''2'' (commitSelection ''1'' (demoWidget\<lparr>w_open := True\<rparr>))
   \<and> w_open twoSelected \<and> w_query twoSelected = []
   \<and> w_selectedIds twoSelected = [''2'', ''1'']
   \<and> w_selectedIds (fst (onKeyDown ''Backspace'' twoSelected)) = [''2'']
   \<and> w_selectedIds (fst (onKeyDown ''Backspace'' (twoSelected\<lparr>w_open := False\<rparr>))) = [''2'', ''1'']"
proof -
  have a: "w_selectedIds (fst (onKeyDown ''Backspace'' twoSelected)) = [''2'']"
    by (simp add: onKeyDown_def twoSelected_fields js_slice_butlast)
  have b: "w_selectedIds (fst (onKeyDown ''Backspace'' (twoSelected\<lparr>w_open := False\<rparr>))) = [''2'', ''1'']"
    by (simp add: onKeyDown_def twoSelected_fields)
  from a b twoSelected_fields show ?thesis by (simp add: twoSelected_def)
qed

lemma all_dropWhile: "(\<forall>x \<in> set (dropWhile P s). P x) = (\<forall>c \<in> set s. P c)"
  by (induction s) auto

lemma trim_Nil_iff: "(trim s = []) = (\<forall>c \<in> set s. isWhiteSpace c)"
  by (simp add: trim_def dropWhile_eq_Nil_conv all_dropWhile)

text \<open>
  C9 (as amended). In an open widget the space key commits the item at the cursor exactly
  when the query is empty after trimming, that is when it consists of white space only
  (the empty query included); otherwise the state is unchanged and the key is left to
  the text field.
\<close>

theorem space_commits_iff_blank:
  assumes "w_open w"
  shows "(trim (w_query w) = [] \<longrightarrow>
            onKeyDown '' '' w
              = ((case itemAt (orderedItems w) (w_activeIndex w) of
                    Some active \<Rightarrow> commitSelection (item_id active) w
                  | None \<Rightarrow> w), True))
         \<and> (trim (w_query w) \<noteq> [] \<longrightarrow> onKeyDown '' '' w = (w, False))
         \<and> (w_query w = [] \<longrightarrow> trim (w_query w) = [])
         \<and> (trim (w_query w) = []) = (\<forall>c \<in> set (w_query w). isWhiteSpace c)"
proof -
  have "trim [] = []" by (simp add: trim_def)
  with assms trim_Nil_iff [of "w_query w"] show ?thesis by (auto simp: onKeyDown_def)
qed

lemma blankQuery_selects:
  "w_selectedIds (fst (onKeyDown '' '' blankQuery)) = [''2'']"
  unfolding blankQuery_def by code_simp

lemma blankQuery_active:
  "itemAt (orderedItems blankQuery) (w_activeIndex blankQuery)
   = Some \<lparr>item_id = ''2'', label = ''Beta Edge #2'', group = Some ''Account''\<rparr>"
  unfolding blankQuery_def by code_simp

theorem space_commits_iff_blank_witness:
  "w_open (blankQuery\<lparr>w_query := ''a ''\<rparr>)
   \<and> trim (w_query (blankQuery\<lparr>w_query := ''a ''\<rparr>)) \<noteq> []
   \<and> onKeyDown '' '' (blankQuery\<lparr>w_query := ''a ''\<rparr>) = (blankQuery\<lparr>w_query := ''a ''\<rparr>, False)
   \<and> w_open blankQuery \<and> trim (w_query blankQuery) = []
   \<and> onKeyDown '' '' blankQuery = (commitSelection ''2'' blankQuery, True)"
proof -
  have o: "w_open (blankQuery\<lparr>w_query := ''a ''\<rparr>)" and o': "w_open blankQuery"
    by (simp_all add: blankQuery_def demoWidget_def)
  have t: "trim (w_query (blankQuery\<lparr>w_query := ''a ''\<rparr>)) \<noteq> []"
    by (simp add: trim_Nil_iff isWhiteSpace_def)
  have t': "trim (w_query blankQuery) = []"
    by (simp add: trim_Nil_iff isWhiteSpace_def blankQuery_def demoWidget_def)
  from space_commits_iff_blank [OF o] t
  have 1: "onKeyDown '' '' (blankQuery\<lparr>w_query := ''a ''\<rparr>) = (blankQuery\<lparr>w_query := ''a ''\<rparr>, False)"
    by blast
  from space_commits_iff_blank [OF o'] t'
  have "onKeyDown '' '' blankQuery
        = ((case itemAt (orderedItems blankQuery) (w_activeIndex blankQuery) of
              Some active \<Rightarrow> commitSelection (item_id active) blankQuery
            | None \<Rightarrow> blankQuery), True)"
    by blast
  then have 2: "onKeyDown '' '' blankQuery = (commitSelection ''2'' blankQuery, True)"
    by (simp add: blankQuery_active)
  from o t 1 o' t' 2 show ?thesis by blast
qed

text \<open>
  C9 as stated fails: with the query consisting of one space, the space key selects the
  item at the cursor and is not passed on as text.
\<close>

theorem space_counterexample:
  "w_open blankQuery \<and> w_query blankQuery = '' '' \<and> w_query blankQuery \<noteq> []
   \<and> w_selectedIds blankQuery = []
   \<and> w_selectedIds (fst (onKeyDown '' '' blankQuery)) = [''2'']
   \<and> snd (onKeyDown '' '' blankQuery) = True"
proof -
  have d: "snd (onKeyDown '' '' blankQuery) = True"
    by (simp add: onKeyDown_def blankQuery_def demoWidget_def trim_Nil_iff isWhiteSpace_def)
  from blankQuery_selects d show ?thesis by (simp add: blankQuery_def demoWidget_def)
qed

section \<open>Properties of the loader\<close>

lemma abortCurrent_aborted: "l_aborted s \<subseteq> l_aborted (abortCurrent s)"
  by (auto simp: abortCurrent_def split: option.splits)

lemma loadMore_aborted: "l_aborted s \<subseteq> l_aborted (loadMore reset s)"
  using abortCurrent_aborted [of s] by (auto simp: loadMore_def Let_def)

lemma settle_aborted: "l_aborted s \<subseteq> l_aborted (settle c out s)"
  by (auto simp: settle_def Let_def split: option.splits outcome.splits)

lemma keepRefsUpdated_aborted: "l_aborted (keepRefsUpdated s) = l_aborted s"
  by (simp add: keepRefsUpdated_def)

lemma clearDebounceTimer_aborted: "l_aborted (clearDebounceTimer s) = l_aborted s"
  by (simp add: clearDebounceTimer_def split: option.splits)

lemma debouncedSearch_aborted: "l_aborted s \<subseteq> l_aborted (debouncedSearch s)"
  using abortCurrent_aborted [of "clearDebounceTimer s"]
  by (auto simp: debouncedSearch_def Let_def clearDebounceTimer_aborted)

lemma timerFired_aborted: "l_aborted s \<subseteq> l_aborted (timerFired t s)"
  using loadMore_aborted [of "s\<lparr>l_timers := l_timers s - {t}, l_initialLoadDoneRef := True\<rparr>" True]
  by (auto simp: timerFired_def)

lemma initialLoad_aborted: "l_aborted s \<subseteq> l_aborted (initialLoad s)"
  using loadMore_aborted [of s True] by (auto simp: initialLoad_def)

lemma handleScroll_aborted: "l_aborted s \<subseteq> l_aborted (handleScroll a b d s)"
  using loadMore_aborted [of s False] by (auto simp: handleScroll_def Let_def)

lemma retry_aborted: "l_aborted s \<subseteq> l_aborted (retry s)"
  using loadMore_aborted [of "s\<lparr>l_error := None\<rparr>" True] by (auto simp: retry_def)

lemma unmount_aborted: "l_aborted s \<subseteq> l_aborted (unmount s)"
  using abortCurrent_aborted [of s] by (auto simp: unmount_def clearDebounceTimer_aborted)

lemma step_aborted: "l_aborted s \<subseteq> l_aborted (step e s)"
proof (cases e)
  case Mount
  have "l_aborted s = l_aborted (keepRefsUpdated s)" by (simp add: keepRefsUpdated_aborted)
  also have "\<dots> \<subseteq> l_aborted (debouncedSearch (keepRefsUpdated s))"
    by (rule debouncedSearch_aborted)
  also have "\<dots> \<subseteq> l_aborted (initialLoad (debouncedSearch (keepRefsUpdated s)))"
    by (rule initialLoad_aborted)
  finally show ?thesis using Mount by simp
next
  case Render
  then show ?thesis by (simp add: keepRefsUpdated_aborted)
next
  case (QueryChanged q)
  have "l_aborted s = l_aborted (keepRefsUpdated (s\<lparr>l_query := q\<rparr>))"
    by (simp add: keepRefsUpdated_aborted)
  also have "\<dots> \<subseteq> l_aborted (debouncedSearch (keepRefsUpdated (s\<lparr>l_query := q\<rparr>)))"
    by (rule debouncedSearch_aborted)
  finally show ?thesis using QueryChanged by (simp add: keepRefsUpdated_aborted)
next
  case (SelectedIdsChanged ids)
  then show ?thesis by (simp add: keepRefsUpdated_aborted)
next
  case (TimerFired t)
  then show ?thesis by (simp add: timerFired_aborted)
next
  case (Settled c out)
  then show ?thesis by (simp add: settle_aborted)
next
  case (Scroll a b d)
  then show ?thesis by (simp add: handleScroll_aborted)
next
  case Retry
  then show ?thesis by (simp add: retry_aborted)
next
  case Unmount
  then show ?thesis by (simp add: unmount_aborted)
qed

lemma run_aborted: "l_aborted s \<subseteq> l_aborted (run es s)"
proof (induction es arbitrary: s)
  case Nil
  show ?case by simp
next
  case (Cons e es)
  from step_aborted [of s e] Cons.IH [of "step e s"] show ?case by auto
qed

lemma filter_find_None:
  "find P xs = None \<Longrightarrow> filter (\<lambda>x. \<not> P x) xs = xs"
  by (induction xs) (auto split: if_splits)

lemma settle_cancelled:
  assumes "c \<in> l_aborted s"
  shows "settle c out s = s\<lparr>l_pending := filter (\<lambda>r. rq_controller r \<noteq> c) (l_pending s)\<rparr>"
proof (cases "find (\<lambda>r. rq_controller r = c) (l_pending s)")
  case None
  from filter_find_None [OF None] None show ?thesis by (simp add: settle_def)
next
  case (Some r)
  with assms show ?thesis by (simp add: settle_def Let_def)
qed

lemma loadMore_cancels:
  assumes "l_hasFetch s" and "\<not> l_loadingRef s" and "l_abortControllerRef s = Some c"
  shows "c \<in> l_aborted (loadMore reset s)"
  using assms by (simp add: loadMore_def Let_def abortCurrent_def)

lemma queryChanged_cancels:
  assumes "l_hasFetch s" and "l_abortControllerRef s = Some c"
    and "q \<noteq> l_query s" and "q \<noteq> l_lastQueryRef s"
  shows "c \<in> l_aborted (step (QueryChanged q) s)"
  using assms
  by (simp add: debouncedSearch_def keepRefsUpdated_def clearDebounceTimer_def abortCurrent_def
        Let_def split: option.splits)

text \<open>
  C2. Let \<open>c\<close> be the controller of the outstanding request. Once a newer load has
  superseded it, either a call of \<open>loadMore\<close> that passes the guard (the reset-and-load
  of the debounce timer, of \<open>retry\<close> or of the initial load, or a load-more) or a change
  of the query, which cancels the request before the debounced reset-and-load, \<open>c\<close> is
  aborted and stays aborted through every sequence \<open>es\<close> of further events; when the
  request then settles, fulfilled or rejected, the items, the page counter, \<open>hasMore\<close>,
  the error, the loading flag and the cache are what they were: nothing changes but the
  list of pending requests.
\<close>

theorem superseded_fetch_has_no_effect:
  assumes "l_hasFetch s" and "l_abortControllerRef s = Some c"
    and "(s1 = loadMore reset s \<and> \<not> l_loadingRef s)
         \<or> (s1 = step (QueryChanged q) s \<and> q \<noteq> l_query s \<and> q \<noteq> l_lastQueryRef s)"
  shows "let s2 = run es s1; s3 = step (Settled c out) s2
         in c \<in> l_aborted s1 \<and> c \<in> l_aborted s2
            \<and> l_asyncItems s3 = l_asyncItems s2 \<and> l_pageRef s3 = l_pageRef s2
            \<and> l_hasMore s3 = l_hasMore s2 \<and> l_error s3 = l_error s2
            \<and> l_loading s3 = l_loading s2
            \<and> l_selectedItemsCache s3 = l_selectedItemsCache s2
            \<and> s3 = s2\<lparr>l_pending := filter (\<lambda>r. rq_controller r \<noteq> c) (l_pending s2)\<rparr>"
proof -
  from assms have a1: "c \<in> l_aborted s1"
    using loadMore_cancels [of s c reset] queryChanged_cancels [of s c q] by blast
  with run_aborted [of s1 es] have a2: "c \<in> l_aborted (run es s1)" by blast
  from settle_cancelled [OF a2, of out]
  have e: "step (Settled c out) (run es s1)
           = (run es s1)\<lparr>l_pending := filter (\<lambda>r. rq_controller r \<noteq> c) (l_pending (run es s1))\<rparr>"
    by simp
  show ?thesis unfolding Let_def e using a1 a2 by simp
qed


theorem superseded_fetch_has_no_effect_witness:
  "l_hasFetch mountedLoader \<and> l_abortControllerRef mountedLoader = Some 2
   \<and> ''a'' \<noteq> l_query mountedLoader \<and> ''a'' \<noteq> l_lastQueryRef mountedLoader
   \<and> 2 \<in> l_aborted (step (QueryChanged ''a'') mountedLoader)
   \<and> l_asyncItems (step (Settled 2 (Resolved mockItems))
                     (run [TimerFired 3, Render] (step (QueryChanged ''a'') mountedLoader)))
       = l_asyncItems (run [TimerFired 3, Render] (step (QueryChanged ''a'') mountedLoader))
   \<and> l_error (step (Settled 2 (Rejected OtherReason))
                     (run [TimerFired 3, Render] (step (QueryChanged ''a'') mountedLoader)))
       = l_error (run [TimerFired 3, Render] (step (QueryChanged ''a'') mountedLoader))
   \<and> l_asyncItems (run [TimerFired 3, Render] (step (QueryChanged ''a'') mountedLoader)) = []
   \<and> l_error (run [TimerFired 3, Render] (step (QueryChanged ''a'') mountedLoader)) = None
   \<and> l_hasFetch justMounted \<and> l_abortControllerRef justMounted = Some 2
   \<and> \<not> l_loadingRef justMounted
   \<and> 2 \<in> l_aborted (loadMore True justMounted)
   \<and> l_asyncItems (step (Settled 2 (Resolved mockItems)) (run [Render] (loadMore True justMounted)))
       = l_asyncItems (run [Render] (loadMore True justMounted))
   \<and> l_asyncItems (run [Render] (loadMore True justMounted)) = []"
proof -
  have h1: "l_hasFetch mountedLoader" and h2: "l_abortControllerRef mountedLoader = Some 2"
    and h3: "''a'' \<noteq> l_query mountedLoader" and h4: "''a'' \<noteq> l_lastQueryRef mountedLoader"
    unfolding mountedLoader_def by code_simp+
  let ?s1 = "step (QueryChanged ''a'') mountedLoader"
  have d: "(?s1 = loadMore True mountedLoader \<and> \<not> l_loadingRef mountedLoader)
           \<or> (?s1 = step (QueryChanged ''a'') mountedLoader \<and> ''a'' \<noteq> l_query mountedLoader
               \<and> ''a'' \<noteq> l_lastQueryRef mountedLoader)"
    using h3 h4 by simp
  note t1 = superseded_fetch_has_no_effect
    [OF h1 h2 d, of "[TimerFired 3, Render]" "Resolved mockItems", unfolded Let_def]
  note t2 = superseded_fetch_has_no_effect
    [OF h1 h2 d, of "[TimerFired 3, Render]" "Rejected OtherReason", unfolded Let_def]
  have v: "l_asyncItems (run [TimerFired 3, Render] ?s1) = []"
    "l_error (run [TimerFired 3, Render] ?s1) = None"
    unfolding mountedLoader_def by code_simp+
  have g1: "l_hasFetch justMounted" and g2: "l_abortControllerRef justMounted = Some 2"
    and g3: "\<not> l_loadingRef justMounted"
    unfolding justMounted_def by code_simp+
  let ?u1 = "loadMore True justMounted"
  have d': "(?u1 = loadMore True justMounted \<and> \<not> l_loadingRef justMounted)
           \<or> (?u1 = step (QueryChanged []) justMounted \<and> [] \<noteq> l_query justMounted
               \<and> [] \<noteq> l_lastQueryRef justMounted)"
    using g3 by simp
  note t3 = superseded_fetch_has_no_effect
    [OF g1 g2 d', of "[Render]" "Resolved mockItems", unfolded Let_def]
  have v': "l_asyncItems (run [Render] ?u1) = []"
    unfolding justMounted_def by code_simp
  from t1 t2 t3 h1 h2 h3 h4 v g1 g2 g3 v' show ?thesis by blast
qed

lemma inv_loadMore: "supersededCancelled s \<Longrightarrow> supersededCancelled (loadMore reset s)"
  by (auto simp: loadMore_def Let_def supersededCancelled_def abortCurrent_def
        split: option.splits intro: less_SucI)

lemma find_Some_mem: "find P xs = Some x \<Longrightarrow> x \<in> set xs \<and> P x"
  by (induction xs) (auto split: if_splits)

lemma inv_settle: "supersededCancelled s \<Longrightarrow> supersededCancelled (settle c out s)"
proof (cases "find (\<lambda>r. rq_controller r = c) (l_pending s)")
  case None
  assume "supersededCancelled s"
  with None show ?thesis by (simp add: settle_def)
next
  case (Some r)
  assume inv: "supersededCancelled s"
  from find_Some_mem [OF Some] have r: "r \<in> set (l_pending s)" "rq_controller r = c" by auto
  show ?thesis
  proof (cases "c \<in> l_aborted s")
    case True
    with inv show ?thesis unfolding settle_cancelled [OF True]
      by (auto simp: supersededCancelled_def)
  next
    case False
    with inv r have cur: "l_abortControllerRef s = Some c"
      by (auto simp: supersededCancelled_def)
    with inv Some False show ?thesis
      by (auto simp: settle_def Let_def supersededCancelled_def split: outcome.splits)
  qed
qed

lemma inv_keepRefsUpdated: "supersededCancelled s \<Longrightarrow> supersededCancelled (keepRefsUpdated s)"
  by (simp add: supersededCancelled_def keepRefsUpdated_def)

lemma inv_clearDebounceTimer:
  "supersededCancelled s \<Longrightarrow> supersededCancelled (clearDebounceTimer s)"
  by (simp add: supersededCancelled_def clearDebounceTimer_def split: option.splits)

lemma inv_debouncedSearch: "supersededCancelled s \<Longrightarrow> supersededCancelled (debouncedSearch s)"
  by (auto simp: debouncedSearch_def Let_def supersededCancelled_def abortCurrent_def
        clearDebounceTimer_def split: option.splits intro: less_SucI)

lemma inv_query: "supersededCancelled s \<Longrightarrow> supersededCancelled (s\<lparr>l_query := q\<rparr>)"
  by (simp add: supersededCancelled_def)

lemma inv_step: "supersededCancelled s \<Longrightarrow> supersededCancelled (step e s)"
proof (cases e)
  case Mount
  assume "supersededCancelled s"
  then have "supersededCancelled (debouncedSearch (keepRefsUpdated s))"
    by (intro inv_debouncedSearch inv_keepRefsUpdated)
  then show ?thesis using Mount by (simp add: initialLoad_def inv_loadMore)
next
  case Render
  assume "supersededCancelled s"
  then show ?thesis using Render by (simp add: inv_keepRefsUpdated)
next
  case (QueryChanged q)
  assume "supersededCancelled s"
  then show ?thesis using QueryChanged
    by (simp add: inv_keepRefsUpdated inv_debouncedSearch inv_query)
next
  case (SelectedIdsChanged ids)
  assume "supersededCancelled s"
  then have "supersededCancelled (s\<lparr>l_selectedIds := ids\<rparr>)" by (simp add: supersededCancelled_def)
  then show ?thesis using SelectedIdsChanged by (simp add: inv_keepRefsUpdated)
next
  case (TimerFired t)
  assume "supersededCancelled s"
  then have "supersededCancelled (s\<lparr>l_timers := l_timers s - {t}, l_initialLoadDoneRef := True\<rparr>)"
    by (simp add: supersededCancelled_def)
  then show ?thesis using TimerFired \<open>supersededCancelled s\<close>
    by (simp add: timerFired_def inv_loadMore)
next
  case (Settled c out)
  assume "supersededCancelled s"
  then show ?thesis using Settled by (simp add: inv_settle)
next
  case (Scroll a b d)
  assume "supersededCancelled s"
  then show ?thesis using Scroll by (simp add: handleScroll_def Let_def inv_loadMore)
next
  case Retry
  assume "supersededCancelled s"
  then have "supersededCancelled (s\<lparr>l_error := None\<rparr>)" by (simp add: supersededCancelled_def)
  then show ?thesis using Retry by (simp add: retry_def inv_loadMore)
next
  case Unmount
  assume "supersededCancelled s"
  then have "supersededCancelled (abortCurrent s)"
    by (auto simp: supersededCancelled_def abortCurrent_def split: option.splits)
  then show ?thesis using Unmount by (simp add: unmount_def inv_clearDebounceTimer)
qed

lemma inv_run: "supersededCancelled s \<Longrightarrow> supersededCancelled (run es s)"
  by (induction es arbitrary: s) (simp_all add: inv_step)

text \<open>
  The cancellation is complete: in every state reached from a state without pending
  requests, a pending request other than the current one has been aborted, so that its
  settling changes nothing but the list of pending requests.
\<close>

theorem only_current_request_takes_effect:
  assumes "l_pending s0 = []" and "s = run es s0"
    and "r \<in> set (l_pending s)" and "l_abortControllerRef s \<noteq> Some (rq_controller r)"
  shows "rq_controller r \<in> l_aborted s
         \<and> step (Settled (rq_controller r) out) s
             = s\<lparr>l_pending := filter (\<lambda>x. rq_controller x \<noteq> rq_controller r) (l_pending s)\<rparr>"
proof -
  from assms(1) have "supersededCancelled s0" by (simp add: supersededCancelled_def)
  then have "supersededCancelled s" unfolding assms(2) by (rule inv_run)
  with assms(3,4) have a: "rq_controller r \<in> l_aborted s"
    by (auto simp: supersededCancelled_def)
  from settle_cancelled [OF a, of out] a show ?thesis by simp
qed

end
